theory Spec2Isabelle
  imports Main "HOL-Library.AList"
begin

section \<open>Values: JSON-like documents, actions, paths\<close>

text \<open>
  The store of \<^verbatim>\<open>roz_remembers.py\<close> holds a document made of \<^verbatim>\<open>dict\<close>, \<^verbatim>\<open>list\<close>
  and scalars, as \<^verbatim>\<open>json.load\<close> produces it. Actions, paths and written values are
  Python values of the same kind. A \<^verbatim>\<open>dict\<close> is an association list in insertion
  order: \<^verbatim>\<open>d[k] = v\<close> is \<open>AList.update\<close> (an existing key keeps its place, a new
  one goes last) and \<^verbatim>\<open>d.get(k)\<close> reads through \<open>map_of\<close>.

  Documents are trees: two places of a document never hold the same Python object, as
  is the case for everything \<^verbatim>\<open>json.load\<close> returns. Floating point numbers are left
  out; no function of the source looks inside a scalar.
\<close>

datatype json =
    JNull
  | JBool bool
  | JInt int
  | JStr string
  | JArr "json list"
  | JObj "(string \<times> json) list"

text \<open>The exceptions the modelled code can raise.\<close>

datatype exn = AttributeError | ValueError | KeyError

text \<open>\<^verbatim>\<open>isinstance(x, (dict, list))\<close>\<close>

fun is_container :: "json \<Rightarrow> bool" where
  "is_container (JObj d) = True"
| "is_container (JArr xs) = True"
| "is_container x = False"

text \<open>\<^verbatim>\<open>d.get(k)\<close>: the value at \<open>k\<close>, \<^verbatim>\<open>None\<close> when the key is missing.\<close>

definition dict_get :: "(string \<times> json) list \<Rightarrow> string \<Rightarrow> json" where
  "dict_get d k = (case map_of d k of None \<Rightarrow> JNull | Some x \<Rightarrow> x)"

subsection \<open>Strings\<close>

text \<open>
  A \<open>char\<close> stands for a code point below 256. Among these \<^verbatim>\<open>str.isdigit\<close> accepts
  the ten decimal digits and the superscripts U+00B2, U+00B3 and U+00B9; \<^verbatim>\<open>int\<close>
  accepts only the decimal digits and raises \<^verbatim>\<open>ValueError\<close> on a superscript.
  \<open>py_int\<close> is \<^verbatim>\<open>int(part)\<close> for a \<open>part\<close> that passed \<^verbatim>\<open>part.isdigit()\<close>, the only
  way the source calls it. The interpreter's optional limit on the number of digits
  that \<^verbatim>\<open>int\<close> converts is not modelled.
\<close>

definition decimal_char :: "char \<Rightarrow> bool" where
  "decimal_char c = (c \<in> set ''0123456789'')"

definition digit_char :: "char \<Rightarrow> bool" where
  "digit_char c = (decimal_char c \<or> c = CHR 0xB2 \<or> c = CHR 0xB3 \<or> c = CHR 0xB9)"

definition isdigit :: "string \<Rightarrow> bool" where
  "isdigit s = (s \<noteq> [] \<and> list_all digit_char s)"

definition digit_value :: "char \<Rightarrow> nat" where
  "digit_value c = of_char c - 48"

definition py_int :: "string \<Rightarrow> exn + nat" where
  "py_int s =
     (if s \<noteq> [] \<and> list_all decimal_char s
      then Inr (foldl (\<lambda>n c. 10 * n + digit_value c) 0 s)
      else Inl ValueError)"

text \<open>\<^verbatim>\<open>s.split(sep)\<close> for a one-character separator: never an empty list.\<close>

fun py_split :: "char \<Rightarrow> string \<Rightarrow> string list" where
  "py_split sep [] = [[]]"
| "py_split sep (c # cs) =
     (if c = sep then [] # py_split sep cs
      else (case py_split sep cs of
              [] \<Rightarrow> [[c]]
            | w # ws \<Rightarrow> (c # w) # ws))"

text \<open>
  \<^verbatim>\<open>path.split('.')\<close> on whatever the action carries as its path: of the values above
  only a \<^verbatim>\<open>str\<close> has a \<^verbatim>\<open>split\<close> attribute.
\<close>

definition path_parts :: "json \<Rightarrow> exn + string list" where
  "path_parts path =
     (case path of
        JStr s \<Rightarrow> Inr (py_split (CHR ''.'') s)
      | _ \<Rightarrow> Inl AttributeError)"

section \<open>The path engine\<close>

subsection \<open>Reading\<close>

text \<open>
  The \<^verbatim>\<open>for part in parts\<close> loop of \<^verbatim>\<open>_get_nested_value\<close>, on the parts still to
  visit and the current \<^verbatim>\<open>temp_data\<close>.
\<close>

fun get_loop :: "string list \<Rightarrow> json \<Rightarrow> exn + json" where
  "get_loop [] temp_data = Inr temp_data"
| "get_loop (part # parts) temp_data =
     (case temp_data of
        JObj d \<Rightarrow>
          (let t = dict_get d part
           in if t = JNull then Inr t else get_loop parts t)
      | JArr xs \<Rightarrow>
          (if isdigit part then
             (case py_int part of
                Inl e \<Rightarrow> Inl e
              | Inr idx \<Rightarrow>
                  (if idx < length xs then
                     (let t = xs ! idx
                      in if t = JNull then Inr t else get_loop parts t)
                   else Inr JNull))
           else Inr JNull)
      | _ \<Rightarrow> Inr JNull)"

definition get_nested_value :: "json \<Rightarrow> json \<Rightarrow> exn + json" where
  "get_nested_value path current_data =
     (case path_parts path of
        Inl e \<Rightarrow> Inl e
      | Inr parts \<Rightarrow> get_loop parts current_data)"

subsection \<open>Writing\<close>

text \<open>
  \<^verbatim>\<open>_set_nested_value\<close> mutates its target in place and returns a flag, or raises.
  The model returns both what the call did and the target as the call left it, also
  when the call returned \<^verbatim>\<open>False\<close> or raised: a parent holds its child by reference,
  so the parent is rebuilt around whatever the rest of the loop did to the child. This
  is the write on a target that is a tree; a target that holds one object at two places
  is the subject of the last section of definitions.
\<close>

datatype outcome = Returned bool | Raised exn

fun set_loop :: "string list \<Rightarrow> json \<Rightarrow> json \<Rightarrow> outcome \<times> json" where
  "set_loop [] v temp_data = (Returned True, temp_data)"
| "set_loop [part] v temp_data =
     (case temp_data of
        JObj d \<Rightarrow> (Returned True, JObj (AList.update part v d))
      | JArr xs \<Rightarrow>
          (if isdigit part then
             (case py_int part of
                Inl e \<Rightarrow> (Raised e, temp_data)
              | Inr idx \<Rightarrow>
                  (if idx < length xs then (Returned True, JArr (xs[idx := v]))
                   else (Returned False, temp_data)))
           else (Returned False, temp_data))
      | _ \<Rightarrow> (Returned False, temp_data))"
| "set_loop (part # parts) v temp_data =
     (case temp_data of
        JObj d \<Rightarrow>
          (let d1 = (case map_of d part of
                       None \<Rightarrow> AList.update part (JObj []) d
                     | Some c \<Rightarrow>
                         if \<not> is_container c then AList.update part (JObj []) d else d)
           in case map_of d1 part of
                None \<Rightarrow> (Raised KeyError, JObj d1)
              | Some child \<Rightarrow>
                  (case set_loop parts v child of
                     (r, child') \<Rightarrow> (r, JObj (AList.update part child' d1))))
      | JArr xs \<Rightarrow>
          (if isdigit part then
             (case py_int part of
                Inl e \<Rightarrow> (Raised e, temp_data)
              | Inr idx \<Rightarrow>
                  (if idx < length xs then
                     (let xs1 = (if \<not> is_container (xs ! idx) then xs[idx := JObj []] else xs)
                      in case set_loop parts v (xs1 ! idx) of
                           (r, child') \<Rightarrow> (r, JArr (xs1[idx := child'])))
                   else (Returned False, temp_data)))
           else (Returned False, temp_data))
      | _ \<Rightarrow> (Returned False, temp_data))"

definition set_nested_value :: "json \<Rightarrow> json \<Rightarrow> json \<Rightarrow> outcome \<times> json" where
  "set_nested_value path v current_data =
     (case path_parts path of
        Inl e \<Rightarrow> (Raised e, current_data)
      | Inr parts \<Rightarrow> set_loop parts v current_data)"

section \<open>The action processor\<close>

record event =
  etype :: string
  path :: json
  old_value :: json
  new_value :: json
  action_source :: json

text \<open>
  What the processor owns: the live document \<^verbatim>\<open>_state\<close>, the content of
  \<^verbatim>\<open>_event_queue\<close> (oldest first), and how often \<^verbatim>\<open>task_done()\<close> was called on the
  action queue.
\<close>

record roz =
  state :: json
  event_queue :: "event list"
  tasks_done :: nat

definition ACTION_TYPE_SET_STATE :: string where
  "ACTION_TYPE_SET_STATE = ''SET_STATE''"

definition EVENT_TYPE_STATE_CHANGED :: string where
  "EVENT_TYPE_STATE_CHANGED = ''STATE_CHANGED''"

text \<open>\<^verbatim>\<open>action.get(k)\<close>: only a \<^verbatim>\<open>dict\<close> has a \<^verbatim>\<open>get\<close> attribute.\<close>

definition action_get :: "json \<Rightarrow> string \<Rightarrow> exn + json" where
  "action_get action k =
     (case action of
        JObj d \<Rightarrow> Inr (dict_get d k)
      | _ \<Rightarrow> Inl AttributeError)"

definition task_done :: "roz \<Rightarrow> roz" where
  "task_done s = s\<lparr>tasks_done := Suc (tasks_done s)\<rparr>"

text \<open>
  The body of the \<^verbatim>\<open>try\<close> block of \<^verbatim>\<open>_action_processor\<close> for one dequeued action:
  the exception that left the block, if any, and the store at that moment.
  \<^verbatim>\<open>copy.deepcopy\<close> is the identity on values, so \<open>set_nested_value\<close> runs on the
  value of \<^verbatim>\<open>_state\<close> and what it returns is \<^verbatim>\<open>temp_state\<close>. (The
  \<^verbatim>\<open>RecursionError\<close> of \<^verbatim>\<open>deepcopy\<close> on a very deeply nested document is not
  modelled; it would leave the block before anything is assigned.)
\<close>

definition try_body :: "json \<Rightarrow> roz \<Rightarrow> exn option \<times> roz" where
  "try_body action s =
     (case action_get action ''type'' of
        Inl e \<Rightarrow> (Some e, s)
      | Inr action_type \<Rightarrow>
          if action_type = JStr ACTION_TYPE_SET_STATE then
            (case action_get action ''path'' of
               Inl e \<Rightarrow> (Some e, s)
             | Inr p \<Rightarrow>
                 (case action_get action ''value'' of
                    Inl e \<Rightarrow> (Some e, s)
                  | Inr v \<Rightarrow>
                      if p = JNull then (None, task_done s)
                      else
                        (case get_nested_value p (state s) of
                           Inl e \<Rightarrow> (Some e, s)
                         | Inr old_value_at_path \<Rightarrow>
                             (case set_nested_value p v (state s) of
                                (Raised e, temp_state) \<Rightarrow> (Some e, s)
                              | (Returned applied_successfully, temp_state) \<Rightarrow>
                                  if applied_successfully then
                                    (let s1 = s\<lparr>state := temp_state\<rparr>
                                     in case get_nested_value p (state s1) of
                                          Inl e \<Rightarrow> (Some e, s1)
                                        | Inr new_value_at_path \<Rightarrow>
                                            (None, task_done
                                               (s1\<lparr>event_queue := event_queue s1 @
                                                  [\<lparr>etype = EVENT_TYPE_STATE_CHANGED,
                                                    path = p,
                                                    old_value = old_value_at_path,
                                                    new_value = new_value_at_path,
                                                    action_source = action\<rparr>]\<rparr>)))
                                  else (None, task_done s)))))
          else (None, task_done s))"

text \<open>
  One turn of the \<^verbatim>\<open>while True\<close> loop: the \<^verbatim>\<open>try\<close> block, and the
  \<^verbatim>\<open>except Exception\<close> handler, which logs and calls \<^verbatim>\<open>task_done()\<close>.
\<close>

definition iteration :: "json \<Rightarrow> roz \<Rightarrow> roz" where
  "iteration action s =
     (case try_body action s of
        (None, s') \<Rightarrow> s'
      | (Some e, s') \<Rightarrow> task_done s')"

text \<open>
  The loop on the actions waiting in \<^verbatim>\<open>_action_queue\<close>, first in first out. With
  the queue empty the task is suspended in \<^verbatim>\<open>get()\<close>; the store it is suspended
  with is the result.
\<close>

fun action_processor :: "json list \<Rightarrow> roz \<Rightarrow> roz" where
  "action_processor [] s = s"
| "action_processor (action # queue) s = action_processor queue (iteration action s)"

text \<open>\<^verbatim>\<open>get_current_state\<close> returns a deep copy of the live document.\<close>

definition get_current_state :: "roz \<Rightarrow> json" where
  "get_current_state s = state s"

section \<open>Documents with shared objects\<close>

text \<open>
  The values above are trees. A Python document can hold one \<^verbatim>\<open>dict\<close> or \<^verbatim>\<open>list\<close>
  object at two places: \<^verbatim>\<open>_set_nested_value\<close> stores the value of an action as it
  is, and \<^verbatim>\<open>copy.deepcopy\<close> keeps the sharing. For such documents a value is a scalar
  or the address of an object, and a heap lists the objects: the object at address \<open>a\<close>
  is \<open>h ! a\<close>, a new object gets the address \<open>length h\<close>, and every address in
  use is below \<open>length h\<close>. An address is a container, a scalar is not. The two loops are the ones above, with every assignment
  \<^verbatim>\<open>temp_data[part] = ...\<close> made on the object at the address in \<^verbatim>\<open>temp_data\<close>.
\<close>

datatype hval = HNull | HBool bool | HInt int | HStr string | HRef nat

datatype hobj = HDict "(string \<times> hval) list" | HList "hval list"

type_synonym heap = "hobj list"

fun hget_loop :: "string list \<Rightarrow> hval \<Rightarrow> heap \<Rightarrow> exn + hval" where
  "hget_loop [] temp_data h = Inr temp_data"
| "hget_loop (part # parts) temp_data h =
     (case temp_data of
        HRef a \<Rightarrow>
          (if a < length h then
             (case h ! a of
                HDict d \<Rightarrow>
                  (let t = (case map_of d part of None \<Rightarrow> HNull | Some x \<Rightarrow> x)
                   in if t = HNull then Inr t else hget_loop parts t h)
              | HList xs \<Rightarrow>
                  (if isdigit part then
                     (case py_int part of
                        Inl e \<Rightarrow> Inl e
                      | Inr idx \<Rightarrow>
                          (if idx < length xs then
                             (let t = xs ! idx
                              in if t = HNull then Inr t else hget_loop parts t h)
                           else Inr HNull))
                   else Inr HNull))
           else Inr HNull)
      | _ \<Rightarrow> Inr HNull)"

fun hset_loop :: "string list \<Rightarrow> hval \<Rightarrow> hval \<Rightarrow> heap \<Rightarrow> outcome \<times> heap" where
  "hset_loop [] v temp_data h = (Returned True, h)"
| "hset_loop [part] v temp_data h =
     (case temp_data of
        HRef a \<Rightarrow>
          (if a < length h then
             (case h ! a of
                HDict d \<Rightarrow> (Returned True, h[a := HDict (AList.update part v d)])
              | HList xs \<Rightarrow>
                  (if isdigit part then
                     (case py_int part of
                        Inl e \<Rightarrow> (Raised e, h)
                      | Inr idx \<Rightarrow>
                          (if idx < length xs
                           then (Returned True, h[a := HList (xs[idx := v])])
                           else (Returned False, h)))
                   else (Returned False, h)))
           else (Returned False, h))
      | _ \<Rightarrow> (Returned False, h))"
| "hset_loop (part # parts) v temp_data h =
     (case temp_data of
        HRef a \<Rightarrow>
          (if a < length h then
             (case h ! a of
                HDict d \<Rightarrow>
                  (case map_of d part of
                     Some (HRef b) \<Rightarrow> hset_loop parts v (HRef b) h
                   | _ \<Rightarrow>
                       (let b = length h;
                            h1 = (h @ [HDict []])[a := HDict (AList.update part (HRef b) d)]
                        in hset_loop parts v (HRef b) h1))
              | HList xs \<Rightarrow>
                  (if isdigit part then
                     (case py_int part of
                        Inl e \<Rightarrow> (Raised e, h)
                      | Inr idx \<Rightarrow>
                          (if idx < length xs then
                             (case xs ! idx of
                                HRef b \<Rightarrow> hset_loop parts v (HRef b) h
                              | _ \<Rightarrow>
                                  (let b = length h;
                                       h1 = (h @ [HDict []])[a := HList (xs[idx := HRef b])]
                                   in hset_loop parts v (HRef b) h1))
                           else (Returned False, h)))
                   else (Returned False, h)))
           else (Returned False, h))
      | _ \<Rightarrow> (Returned False, h))"

section \<open>Auxiliary notions for the proofs\<close>

text \<open>What an empty \<^verbatim>\<open>dict\<close> becomes when a value is written into it at a path.\<close>

fun chain :: "string list \<Rightarrow> json \<Rightarrow> json" where
  "chain [] v = JObj []"
| "chain [part] v = JObj [(part, v)]"
| "chain (part # parts) v = JObj [(part, chain parts v)]"

text \<open>
  The child the write loop descends into at a non-terminal segment: the value found
  there when it is a container, a fresh \<^verbatim>\<open>{}\<close> otherwise.
\<close>

definition fresh_unless_container :: "json \<Rightarrow> json" where
  "fresh_unless_container c = (if is_container c then c else JObj [])"

text \<open>
  Two segments name the same place of a node: the same key, or, in an array, the same
  index, since \<^verbatim>\<open>int\<close> reads \<^verbatim>\<open>0\<close> and \<^verbatim>\<open>00\<close> as one number.
\<close>

definition same_slot :: "json \<Rightarrow> string \<Rightarrow> string \<Rightarrow> bool" where
  "same_slot node s1 s2 =
     (case node of
        JArr xs \<Rightarrow> s1 = s2 \<or> (isdigit s1 \<and> isdigit s2 \<and> py_int s1 = py_int s2)
      | _ \<Rightarrow> s1 = s2)"

text \<open>
  An action that the processor applies: a \<^verbatim>\<open>dict\<close> of type \<^verbatim>\<open>SET_STATE\<close> that carries
  a path, and whose write on (a copy of) the document returns \<^verbatim>\<open>True\<close>. These are
  the three tests an action passes on its way to the \<^verbatim>\<open>put\<close> of an event.
\<close>

definition valid_set_state :: "json \<Rightarrow> json \<Rightarrow> bool" where
  "valid_set_state action doc =
     (case action of
        JObj kv \<Rightarrow>
          dict_get kv ''type'' = JStr ACTION_TYPE_SET_STATE \<and>
          dict_get kv ''path'' \<noteq> JNull \<and>
          fst (set_nested_value (dict_get kv ''path'') (dict_get kv ''value'') doc) = Returned True
      | _ \<Rightarrow> False)"

section \<open>Facts about strings and the two loops\<close>

lemma py_split_not_Nil: "py_split sep s \<noteq> []"
  by (induction s) (auto split: list.splits)

lemma set_loop_empty_dict: "set_loop parts v (JObj []) = (Returned True, chain parts v)"
  by (induction parts v rule: chain.induct) simp_all

lemma set_loop_cons:
  "parts \<noteq> [] \<Longrightarrow> set_loop (part # parts) v temp_data =
     (case temp_data of
        JObj d \<Rightarrow>
          (let d1 = (case map_of d part of
                       None \<Rightarrow> AList.update part (JObj []) d
                     | Some c \<Rightarrow>
                         if \<not> is_container c then AList.update part (JObj []) d else d)
           in case map_of d1 part of
                None \<Rightarrow> (Raised KeyError, JObj d1)
              | Some child \<Rightarrow>
                  (case set_loop parts v child of
                     (r, child') \<Rightarrow> (r, JObj (AList.update part child' d1))))
      | JArr xs \<Rightarrow>
          (if isdigit part then
             (case py_int part of
                Inl e \<Rightarrow> (Raised e, temp_data)
              | Inr idx \<Rightarrow>
                  (if idx < length xs then
                     (let xs1 = (if \<not> is_container (xs ! idx) then xs[idx := JObj []] else xs)
                      in case set_loop parts v (xs1 ! idx) of
                           (r, child') \<Rightarrow> (r, JArr (xs1[idx := child'])))
                   else (Returned False, temp_data)))
           else (Returned False, temp_data))
      | _ \<Rightarrow> (Returned False, temp_data))"
  by (cases parts) (simp, hypsubst, simp only: set_loop.simps)

lemma set_loop_scalar:
  "\<not> is_container t \<Longrightarrow> parts \<noteq> [] \<Longrightarrow> set_loop parts v t = (Returned False, t)"
  by (cases "(parts, v, t)" rule: set_loop.cases) (auto split: json.splits)

lemma set_loop_kind:
  "set_loop parts v t = (r, t') \<Longrightarrow>
     (case t of JObj d \<Rightarrow> (\<exists>d'. t' = JObj d')
              | JArr xs \<Rightarrow> (\<exists>xs'. t' = JArr xs' \<and> length xs' = length xs)
              | _ \<Rightarrow> t' = t)"
  by (cases "(parts, v, t)" rule: set_loop.cases)
     (auto split: json.splits sum.splits if_splits option.splits prod.splits simp: Let_def)

text \<open>The two non-terminal steps of the write loop, with the bookkeeping folded away.\<close>

lemma set_loop_obj:
  "parts \<noteq> [] \<Longrightarrow> set_loop (part # parts) v (JObj d) =
     (case set_loop parts v (fresh_unless_container (dict_get d part)) of
        (r, c') \<Rightarrow> (r, JObj (AList.update part c' d)))"
  by (simp add: set_loop_cons fresh_unless_container_def dict_get_def update_conv'
           split: option.splits)

lemma set_loop_arr:
  "parts \<noteq> [] \<Longrightarrow> isdigit part \<Longrightarrow> py_int part = Inr idx \<Longrightarrow> idx < length xs \<Longrightarrow>
   set_loop (part # parts) v (JArr xs) =
     (case set_loop parts v (fresh_unless_container (xs ! idx)) of
        (r, c') \<Rightarrow> (r, JArr (xs[idx := c'])))"
  by (simp add: set_loop_cons fresh_unless_container_def)

text \<open>
  Once the loop has put a fresh \<^verbatim>\<open>{}\<close> somewhere it only meets objects it made
  itself and cannot fail any more. So a call that does not return \<^verbatim>\<open>True\<close> has
  not touched its target.
\<close>

lemma set_loop_unchanged:
  "fst (set_loop parts v t) \<noteq> Returned True \<Longrightarrow> snd (set_loop parts v t) = t"
proof (induction parts arbitrary: t)
  case Nil
  then show ?case by simp
next
  case (Cons part parts)
  show ?case
  proof (cases "parts = []")
    case True
    with Cons.prems show ?thesis
      by (auto split: json.splits sum.splits if_splits)
  next
    case False
    show ?thesis
    proof (cases t)
      case (JObj d)
      let ?c = "fresh_unless_container (dict_get d part)"
      obtain r c' where rc: "set_loop parts v ?c = (r, c')" by (cases "set_loop parts v ?c")
      with Cons.prems JObj False have r: "r \<noteq> Returned True"
        by (simp add: set_loop_obj)
      with Cons.IH [of ?c] rc have c': "c' = ?c" by simp
      have "is_container (dict_get d part)"
      proof (rule ccontr)
        assume "\<not> is_container (dict_get d part)"
        then have "?c = JObj []" by (simp add: fresh_unless_container_def)
        with rc r show False by (simp add: set_loop_empty_dict)
      qed
      then have "map_of d part = Some ?c"
        by (auto simp: fresh_unless_container_def dict_get_def split: option.splits)
      then have "AList.update part ?c d = d" by (rule update_triv)
      with JObj False rc c' show ?thesis by (simp add: set_loop_obj)
    next
      case (JArr xs)
      show ?thesis
      proof (cases "isdigit part \<and> (\<exists>idx. py_int part = Inr idx \<and> idx < length xs)")
        case True
        then obtain idx where idx: "isdigit part" "py_int part = Inr idx" "idx < length xs"
          by blast
        let ?c = "fresh_unless_container (xs ! idx)"
        obtain r c' where rc: "set_loop parts v ?c = (r, c')" by (cases "set_loop parts v ?c")
        with Cons.prems JArr False idx have r: "r \<noteq> Returned True"
          by (simp add: set_loop_arr)
        with Cons.IH [of ?c] rc have c': "c' = ?c" by simp
        have "is_container (xs ! idx)"
        proof (rule ccontr)
          assume "\<not> is_container (xs ! idx)"
          then have "?c = JObj []" by (simp add: fresh_unless_container_def)
          with rc r show False by (simp add: set_loop_empty_dict)
        qed
        then have "?c = xs ! idx" by (simp add: fresh_unless_container_def)
        with JArr False rc c' idx show ?thesis by (simp add: set_loop_arr)
      next
        case no_slot: False
        with JArr False show ?thesis
          by (auto simp: set_loop_cons split: sum.splits)
      qed
    qed (use False in \<open>simp_all add: set_loop_scalar\<close>)
  qed
qed

lemma set_nested_value_unchanged:
  assumes "set_nested_value p v doc = (r, doc')" and "r \<noteq> Returned True"
  shows "doc' = doc"
proof (cases "path_parts p")
  case (Inl e)
  with assms show ?thesis by (simp add: set_nested_value_def)
next
  case (Inr parts)
  with assms have "set_loop parts v doc = (r, doc')"
    by (simp add: set_nested_value_def)
  with assms(2) set_loop_unchanged [of parts v doc] show ?thesis by simp
qed

lemma is_container_fresh [simp]: "is_container (fresh_unless_container c)"
  by (simp add: fresh_unless_container_def)

lemma fresh_container_id: "is_container c \<Longrightarrow> fresh_unless_container c = c"
  by (simp add: fresh_unless_container_def)

lemma set_loop_container:
  "set_loop parts v c = (r, c') \<Longrightarrow> is_container c \<Longrightarrow> is_container c'"
  by (drule set_loop_kind) (auto split: json.splits)

lemma get_loop_obj:
  "get_loop (part # parts) (JObj d) =
     (if dict_get d part = JNull then Inr JNull else get_loop parts (dict_get d part))"
  by (simp add: Let_def)

lemma get_loop_arr:
  "isdigit part \<Longrightarrow> py_int part = Inr idx \<Longrightarrow> idx < length xs \<Longrightarrow>
   get_loop (part # parts) (JArr xs) =
     (if xs ! idx = JNull then Inr JNull else get_loop parts (xs ! idx))"
  by (simp add: Let_def)

lemma get_loop_scalar:
  "\<not> is_container t \<Longrightarrow> parts \<noteq> [] \<Longrightarrow> get_loop parts t = Inr JNull"
  by (cases parts; cases t) simp_all

lemma get_loop_null [simp]: "get_loop parts JNull = Inr JNull"
  by (cases parts) simp_all

lemma get_loop_append:
  "get_loop pre t = Inr n \<Longrightarrow> get_loop (pre @ ps) t = get_loop ps n"
proof (induction pre arbitrary: t)
  case Nil
  then show ?case by simp
next
  case (Cons p pre)
  then show ?case
    by (cases t) (auto simp: Let_def split: if_splits sum.splits)
qed

lemma get_loop_container_source:
  "get_loop ps c = Inr n \<Longrightarrow> is_container n \<Longrightarrow> is_container c"
  by (cases ps; cases c) auto

lemma dict_get_update_same [simp]: "dict_get (AList.update k v d) k = v"
  by (simp add: dict_get_def update_conv')

lemma dict_get_update_other [simp]: "k' \<noteq> k \<Longrightarrow> dict_get (AList.update k v d) k' = dict_get d k'"
  by (simp add: dict_get_def update_conv')

lemma get_after_set_loop:
  "parts \<noteq> [] \<Longrightarrow> set_loop parts v t = (Returned True, t') \<Longrightarrow> get_loop parts t' = Inr v"
proof (induction parts arbitrary: t t')
  case Nil
  then show ?case by simp
next
  case (Cons part parts)
  show ?case
  proof (cases "parts = []")
    case True
    with Cons.prems show ?thesis
      by (cases t) (auto simp: Let_def split: if_splits sum.splits)
  next
    case False
    show ?thesis
    proof (cases t)
      case (JObj d)
      let ?c = "fresh_unless_container (dict_get d part)"
      obtain r c' where rc: "set_loop parts v ?c = (r, c')" by (cases "set_loop parts v ?c")
      with Cons.prems JObj False have r: "r = Returned True" and t': "t' = JObj (AList.update part c' d)"
        by (simp_all add: set_loop_obj)
      from rc have "is_container c'" by (rule set_loop_container) simp
      then have "c' \<noteq> JNull" by auto
      moreover from Cons.IH [OF False] rc r have "get_loop parts c' = Inr v" by simp
      ultimately show ?thesis using t' by (simp add: get_loop_obj)
    next
      case (JArr xs)
      from Cons.prems False JArr obtain idx where
        idx: "isdigit part" "py_int part = Inr idx" "idx < length xs"
        by (auto simp: set_loop_cons split: if_splits sum.splits)
      let ?c = "fresh_unless_container (xs ! idx)"
      obtain r c' where rc: "set_loop parts v ?c = (r, c')" by (cases "set_loop parts v ?c")
      with Cons.prems JArr False idx have r: "r = Returned True" and t': "t' = JArr (xs[idx := c'])"
        by (simp_all add: set_loop_arr)
      from rc have "is_container c'" by (rule set_loop_container) simp
      then have "c' \<noteq> JNull" by auto
      moreover from Cons.IH [OF False] rc r have "get_loop parts c' = Inr v" by simp
      ultimately show ?thesis using t' idx by (simp add: get_loop_arr)
    qed (use Cons.prems False in \<open>simp_all add: set_loop_scalar\<close>)
  qed
qed

lemma set_loop_prefix:
  assumes "get_loop pre t = Inr node" and "is_container node" and "ps \<noteq> []"
  shows "fst (set_loop (pre @ ps) v t) = fst (set_loop ps v node) \<and>
         get_loop pre (snd (set_loop (pre @ ps) v t)) = Inr (snd (set_loop ps v node))"
  using assms
proof (induction pre arbitrary: t)
  case Nil
  then show ?case by simp
next
  case (Cons p pre)
  have ne: "pre @ ps \<noteq> []" using Cons.prems by simp
  show ?case
  proof (cases t)
    case (JObj d)
    let ?c = "dict_get d p"
    from Cons.prems JObj have c: "?c \<noteq> JNull" "get_loop pre ?c = Inr node"
      by (auto simp: Let_def split: if_splits)
    then have cont: "is_container ?c" using Cons.prems(2) by (auto dest: get_loop_container_source)
    obtain r c' where rc: "set_loop (pre @ ps) v ?c = (r, c')" by (cases "set_loop (pre @ ps) v ?c")
    from rc cont have "is_container c'" by (rule set_loop_container)
    then have c': "c' \<noteq> JNull" by auto
    from Cons.IH [OF c(2) Cons.prems(2,3)] rc
    have "r = fst (set_loop ps v node)" "get_loop pre c' = Inr (snd (set_loop ps v node))"
      by simp_all
    with JObj ne rc cont c' show ?thesis
      by (simp add: set_loop_obj fresh_container_id get_loop_obj)
  next
    case (JArr xs)
    from Cons.prems JArr obtain idx where
      idx: "isdigit p" "py_int p = Inr idx" "idx < length xs"
      by (auto split: if_splits sum.splits)
    let ?c = "xs ! idx"
    from Cons.prems JArr idx have c: "?c \<noteq> JNull" "get_loop pre ?c = Inr node"
      by (auto simp: Let_def split: if_splits)
    then have cont: "is_container ?c" using Cons.prems(2) by (auto dest: get_loop_container_source)
    obtain r c' where rc: "set_loop (pre @ ps) v ?c = (r, c')" by (cases "set_loop (pre @ ps) v ?c")
    from rc cont have "is_container c'" by (rule set_loop_container)
    then have c': "c' \<noteq> JNull" by auto
    from Cons.IH [OF c(2) Cons.prems(2,3)] rc
    have "r = fst (set_loop ps v node)" "get_loop pre c' = Inr (snd (set_loop ps v node))"
      by simp_all
    with JArr ne rc cont c' idx show ?thesis
      by (simp add: set_loop_arr fresh_container_id get_loop_arr)
  qed (use Cons.prems in auto)
qed


lemma path_parts_not_Nil: "path_parts p = Inr parts \<Longrightarrow> parts \<noteq> []"
  by (auto simp: path_parts_def py_split_not_Nil split: json.splits)

lemma get_after_set:
  assumes "set_nested_value p v doc = (Returned True, doc')"
  shows "get_nested_value p doc' = Inr v"
proof (cases "path_parts p")
  case (Inl e)
  with assms show ?thesis by (simp add: set_nested_value_def)
next
  case (Inr parts)
  with assms have "set_loop parts v doc = (Returned True, doc')"
    by (simp add: set_nested_value_def)
  with Inr show ?thesis
    by (simp add: get_nested_value_def get_after_set_loop path_parts_not_Nil)
qed

lemmas eval_path =
  set_nested_value_def get_nested_value_def path_parts_def isdigit_def digit_char_def
  decimal_char_def py_int_def digit_value_def dict_get_def Let_def

lemma get_loop_stops:
  assumes "(\<exists>d. node = JObj d \<and> dict_get d seg = JNull)
         \<or> (\<exists>xs. node = JArr xs \<and> \<not> isdigit seg)
         \<or> \<not> is_container node
         \<or> (\<exists>xs idx. node = JArr xs \<and> isdigit seg \<and> py_int seg = Inr idx \<and> length xs \<le> idx)
         \<or> (\<exists>xs idx. node = JArr xs \<and> isdigit seg \<and> py_int seg = Inr idx \<and> idx < length xs
               \<and> xs ! idx = JNull)"
  shows "get_loop (seg # rest) node = Inr JNull"
  using assms by (cases node) (auto simp: Let_def)

lemma set_loop_arr_oob:
  "isdigit seg \<Longrightarrow> py_int seg = Inr idx \<Longrightarrow> length xs \<le> idx \<Longrightarrow>
   set_loop (seg # rest) v (JArr xs) = (Returned False, JArr xs)"
  by (cases rest) simp_all

lemma set_loop_oob:
  assumes "get_loop pre t = Inr (JArr xs)" and "isdigit seg" and "py_int seg = Inr idx"
    and "length xs \<le> idx"
  shows "set_loop (pre @ seg # rest) v t = (Returned False, t)"
proof -
  have "fst (set_loop (pre @ seg # rest) v t) = fst (set_loop (seg # rest) v (JArr xs))"
    using set_loop_prefix [OF assms(1), of "seg # rest" v] by simp
  then have f: "fst (set_loop (pre @ seg # rest) v t) = Returned False"
    using assms by (simp add: set_loop_arr_oob)
  then have "snd (set_loop (pre @ seg # rest) v t) = t"
    by (intro set_loop_unchanged) simp
  with f show ?thesis by (simp add: prod_eq_iff)
qed

lemma get_loop_no_raise:
  "set_loop parts v t = (Returned b, t') \<Longrightarrow> \<exists>old. get_loop parts t = Inr old"
proof (induction parts arbitrary: t t' b)
  case Nil
  then show ?case by simp
next
  case (Cons part parts)
  show ?case
  proof (cases "parts = []")
    case True
    with Cons.prems show ?thesis
      by (cases t) (auto simp: Let_def split: if_splits sum.splits)
  next
    case False
    show ?thesis
    proof (cases t)
      case (JObj d)
      let ?c = "dict_get d part"
      show ?thesis
      proof (cases "is_container ?c")
        case True
        obtain r c' where rc: "set_loop parts v ?c = (r, c')" by (cases "set_loop parts v ?c")
        with Cons.prems JObj False True have "r = Returned b"
          by (simp add: set_loop_obj fresh_container_id)
        with rc Cons.IH obtain old where "get_loop parts ?c = Inr old" by blast
        with JObj show ?thesis by (simp add: Let_def)
      next
        case c: False
        with JObj False show ?thesis by (simp add: Let_def get_loop_scalar)
      qed
    next
      case (JArr xs)
      show ?thesis
      proof (cases "isdigit part \<and> (\<exists>idx. py_int part = Inr idx \<and> idx < length xs)")
        case True
        then obtain idx where idx: "isdigit part" "py_int part = Inr idx" "idx < length xs"
          by blast
        let ?c = "xs ! idx"
        show ?thesis
        proof (cases "is_container ?c")
          case True
          obtain r c' where rc: "set_loop parts v ?c = (r, c')" by (cases "set_loop parts v ?c")
          with Cons.prems JArr False True idx have "r = Returned b"
            by (simp add: set_loop_arr fresh_container_id)
          with rc Cons.IH obtain old where "get_loop parts ?c = Inr old" by blast
          with JArr idx show ?thesis by (simp add: Let_def)
        next
          case c: False
          with JArr False idx show ?thesis by (simp add: Let_def get_loop_scalar)
        qed
      next
        case no_slot: False
        with JArr False Cons.prems show ?thesis
          by (auto simp: set_loop_cons split: sum.splits if_splits)
      qed
    qed simp_all
  qed
qed

lemma get_no_raise:
  assumes "set_nested_value p v doc = (Returned b, doc')"
  shows "\<exists>old. get_nested_value p doc = Inr old"
proof (cases "path_parts p")
  case (Inl e)
  with assms show ?thesis by (simp add: set_nested_value_def)
next
  case (Inr parts)
  with assms have "set_loop parts v doc = (Returned b, doc')"
    by (simp add: set_nested_value_def)
  then obtain old where "get_loop parts doc = Inr old" by (blast dest: get_loop_no_raise)
  with Inr show ?thesis by (simp add: get_nested_value_def)
qed

lemma chain_cons: "parts \<noteq> [] \<Longrightarrow> chain (part # parts) v = JObj [(part, chain parts v)]"
  by (cases parts) simp_all

lemma is_container_chain [simp]: "is_container (chain parts v)"
  by (induction parts v rule: chain.induct) simp_all

lemma chain_not_null [simp]: "chain parts v \<noteq> JNull"
  using is_container_chain [of parts v] by (auto simp del: is_container_chain)

lemma get_loop_chain_hit:
  "parts \<noteq> [] \<Longrightarrow> get_loop (ps @ [part]) (chain (ps @ part # parts) v) = Inr (chain parts v)"
  by (induction ps) (simp_all add: chain_cons dict_get_def)

lemma get_loop_chain_miss:
  "s1 \<noteq> s2 \<Longrightarrow> get_loop (ps @ s2 # r2) (chain (ps @ s1 # r1) v) = Inr JNull"
proof (induction ps)
  case Nil
  then show ?case by (cases r1) (simp_all add: dict_get_def)
next
  case (Cons q ps)
  then show ?case by (simp add: chain_cons dict_get_def)
qed

lemma vivified_segment:
  assumes "parts \<noteq> []"
    and "set_loop (pre @ part # parts) v t = (Returned True, t')"
    and "get_loop (pre @ [part]) t = Inr x" and "\<not> is_container x"
  shows "get_loop (pre @ [part]) t' = Inr (chain parts v)"
  using assms(2-)
proof (induction pre arbitrary: t t')
  case Nil
  show ?case
  proof (cases t)
    case (JObj d)
    with Nil have "\<not> is_container (dict_get d part)"
      by (auto simp: Let_def split: if_splits)
    with Nil JObj assms(1) show ?thesis
      by (auto simp: set_loop_obj fresh_unless_container_def set_loop_empty_dict)
  next
    case (JArr xs)
    from Nil.prems(1) JArr assms(1) obtain idx where
      idx: "isdigit part" "py_int part = Inr idx" "idx < length xs"
      by (auto simp: set_loop_cons split: if_splits sum.splits)
    with Nil JArr have "\<not> is_container (xs ! idx)"
      by (auto simp: Let_def split: if_splits)
    with Nil JArr assms(1) idx show ?thesis
      by (auto simp: set_loop_arr fresh_unless_container_def set_loop_empty_dict)
  qed (use Nil assms(1) in \<open>simp_all add: set_loop_scalar\<close>)
next
  case (Cons q pre)
  have ne: "pre @ part # parts \<noteq> []" by simp
  show ?case
  proof (cases t)
    case (JObj d)
    let ?c = "dict_get d q"
    show ?thesis
    proof (cases "is_container ?c")
      case True
      obtain r c' where rc: "set_loop (pre @ part # parts) v ?c = (r, c')"
        by (cases "set_loop (pre @ part # parts) v ?c")
      with Cons.prems(1) JObj True have r: "r = Returned True" and t': "t' = JObj (AList.update q c' d)"
        using set_loop_obj [OF ne, of q v d] by (simp_all add: fresh_container_id)
      from rc True have "is_container c'" by (rule set_loop_container)
      then have c': "c' \<noteq> JNull" by auto
      from True have "?c \<noteq> JNull" by auto
      with Cons.prems(2) JObj have "get_loop (pre @ [part]) ?c = Inr x" by (simp add: Let_def)
      with Cons.IH rc r Cons.prems(3) have "get_loop (pre @ [part]) c' = Inr (chain parts v)"
        by simp
      with t' c' show ?thesis by (simp add: Let_def)
    next
      case False
      with Cons.prems(1) JObj have "t' = JObj (AList.update q (chain (pre @ part # parts) v) d)"
        using set_loop_obj [OF ne, of q v d]
        by (simp add: fresh_unless_container_def set_loop_empty_dict)
      then show ?thesis using assms(1) by (simp add: Let_def get_loop_chain_hit)
    qed
  next
    case (JArr xs)
    from Cons.prems(1) JArr obtain idx where
      idx: "isdigit q" "py_int q = Inr idx" "idx < length xs"
      using set_loop_cons [OF ne, of q v t] by (auto split: if_splits sum.splits)
    let ?c = "xs ! idx"
    show ?thesis
    proof (cases "is_container ?c")
      case True
      obtain r c' where rc: "set_loop (pre @ part # parts) v ?c = (r, c')"
        by (cases "set_loop (pre @ part # parts) v ?c")
      with Cons.prems(1) JArr True idx have r: "r = Returned True" and t': "t' = JArr (xs[idx := c'])"
        using set_loop_arr [OF ne idx, of v] by (simp_all add: fresh_container_id)
      from rc True have "is_container c'" by (rule set_loop_container)
      then have c': "c' \<noteq> JNull" by auto
      from True have "?c \<noteq> JNull" by auto
      with Cons.prems(2) JArr idx have "get_loop (pre @ [part]) ?c = Inr x" by (simp add: Let_def)
      with Cons.IH rc r Cons.prems(3) have "get_loop (pre @ [part]) c' = Inr (chain parts v)"
        by simp
      with t' c' idx show ?thesis by (simp add: Let_def)
    next
      case False
      with Cons.prems(1) JArr idx have "t' = JArr (xs[idx := chain (pre @ part # parts) v])"
        using set_loop_arr [OF ne idx, of v]
        by (simp add: fresh_unless_container_def set_loop_empty_dict)
      then show ?thesis using assms(1) idx by (simp add: Let_def get_loop_chain_hit)
    qed
  qed (use Cons.prems ne in \<open>simp_all add: set_loop_scalar\<close>)
qed

lemma write_reaches_slot:
  assumes "ps \<noteq> []" and "get_loop pre t = Inr node"
    and "(\<exists>d. node = JObj d) \<or>
         (\<exists>xs idx. node = JArr xs \<and> isdigit part \<and> py_int part = Inr idx \<and> idx < length xs)"
    and "get_loop (pre @ [part]) t = Inr x" and "\<not> is_container x"
  shows "fst (set_loop (pre @ part # ps) v t) = Returned True"
proof -
  from assms(3) have cont: "is_container node" by auto
  from assms(2,4) have x: "get_loop [part] node = Inr x" by (simp add: get_loop_append)
  have "fst (set_loop (part # ps) v node) = Returned True"
    using assms(3)
  proof (elim disjE exE conjE)
    fix d assume "node = JObj d"
    with x assms(1,5) show ?thesis
      by (auto simp: set_loop_obj fresh_unless_container_def set_loop_empty_dict Let_def
            split: if_splits)
  next
    fix xs idx
    assume "node = JArr xs" "isdigit part" "py_int part = Inr idx" "idx < length xs"
    with x assms(1,5) show ?thesis
      by (auto simp: set_loop_arr fresh_unless_container_def set_loop_empty_dict Let_def
            split: if_splits)
  qed
  with set_loop_prefix [OF assms(2) cont, of "part # ps" v] show ?thesis by simp
qed


lemma slot_frame:
  assumes "set_loop (s1 # r1) v node = (Returned True, node')" and "\<not> same_slot node s1 s2"
  shows "get_loop (s2 # r2) node' = get_loop (s2 # r2) node"
proof (cases node)
  case (JObj d)
  with assms(2) have ne: "s2 \<noteq> s1" by (auto simp: same_slot_def)
  from assms(1) JObj obtain c where "node' = JObj (AList.update s1 c d)"
    by (cases "r1 = []") (auto simp: set_loop_obj split: prod.splits)
  with JObj ne show ?thesis by (simp add: Let_def)
next
  case (JArr xs)
  from assms(1) JArr obtain idx where
    idx: "isdigit s1" "py_int s1 = Inr idx" "idx < length xs"
    by (cases "r1 = []") (auto simp: set_loop_cons split: if_splits sum.splits)
  with assms(1) JArr obtain c where node': "node' = JArr (xs[idx := c])"
    by (cases "r1 = []") (auto simp: set_loop_arr split: prod.splits)
  show ?thesis
  proof (cases "isdigit s2")
    case True
    show ?thesis
    proof (cases "py_int s2")
      case (Inl e)
      with JArr node' True show ?thesis by simp
    next
      case (Inr i2)
      with assms(2) JArr idx True have "i2 \<noteq> idx" by (auto simp: same_slot_def)
      with JArr node' True Inr show ?thesis by (simp add: Let_def)
    qed
  next
    case False
    with JArr node' show ?thesis by simp
  qed
qed (use assms(1) in \<open>simp_all add: set_loop_scalar\<close>)

lemma off_path_of_fresh_chain:
  assumes "s1 \<noteq> s2"
    and "get_loop pre t = Inr node" and "\<not> is_container node"
    and "set_loop (pre @ s1 # r1) v t = (Returned True, t')"
  shows "get_loop (pre @ s2 # r2) t' = Inr JNull"
  using assms(2-)
proof (induction pre arbitrary: t t')
  case Nil
  then show ?case by (simp add: set_loop_scalar)
next
  case (Cons q pre)
  have ne: "pre @ s1 # r1 \<noteq> []" by simp
  show ?case
  proof (cases t)
    case (JObj d)
    let ?c = "dict_get d q"
    show ?thesis
    proof (cases "is_container ?c")
      case True
      obtain r c' where rc: "set_loop (pre @ s1 # r1) v ?c = (r, c')"
        by (cases "set_loop (pre @ s1 # r1) v ?c")
      with Cons.prems(3) JObj True have r: "r = Returned True" and t': "t' = JObj (AList.update q c' d)"
        using set_loop_obj [OF ne, of q v d] by (simp_all add: fresh_container_id)
      from rc True have "is_container c'" by (rule set_loop_container)
      then have c': "c' \<noteq> JNull" by auto
      from True have "?c \<noteq> JNull" by auto
      with Cons.prems(1) JObj have "get_loop pre ?c = Inr node" by (simp add: Let_def)
      with Cons.IH rc r Cons.prems(2) have "get_loop (pre @ s2 # r2) c' = Inr JNull" by simp
      with t' c' show ?thesis by (simp add: Let_def)
    next
      case False
      with Cons.prems(3) JObj have "t' = JObj (AList.update q (chain (pre @ s1 # r1) v) d)"
        using set_loop_obj [OF ne, of q v d]
        by (simp add: fresh_unless_container_def set_loop_empty_dict)
      then show ?thesis using assms(1) by (simp add: Let_def get_loop_chain_miss)
    qed
  next
    case (JArr xs)
    from Cons.prems(3) JArr obtain idx where
      idx: "isdigit q" "py_int q = Inr idx" "idx < length xs"
      using set_loop_cons [OF ne, of q v t] by (auto split: if_splits sum.splits)
    let ?c = "xs ! idx"
    show ?thesis
    proof (cases "is_container ?c")
      case True
      obtain r c' where rc: "set_loop (pre @ s1 # r1) v ?c = (r, c')"
        by (cases "set_loop (pre @ s1 # r1) v ?c")
      with Cons.prems(3) JArr True idx have r: "r = Returned True" and t': "t' = JArr (xs[idx := c'])"
        using set_loop_arr [OF ne idx, of v] by (simp_all add: fresh_container_id)
      from rc True have "is_container c'" by (rule set_loop_container)
      then have c': "c' \<noteq> JNull" by auto
      from True have "?c \<noteq> JNull" by auto
      with Cons.prems(1) JArr idx have "get_loop pre ?c = Inr node" by (simp add: Let_def)
      with Cons.IH rc r Cons.prems(2) have "get_loop (pre @ s2 # r2) c' = Inr JNull" by simp
      with t' c' idx show ?thesis by (simp add: Let_def)
    next
      case False
      with Cons.prems(3) JArr idx have "t' = JArr (xs[idx := chain (pre @ s1 # r1) v])"
        using set_loop_arr [OF ne idx, of v]
        by (simp add: fresh_unless_container_def set_loop_empty_dict)
      then show ?thesis using assms(1) idx by (simp add: Let_def get_loop_chain_miss)
    qed
  qed (use Cons.prems ne in \<open>simp_all add: set_loop_scalar\<close>)
qed

lemma set_loop_frame:
  assumes "get_loop pre t = Inr node" and "\<not> same_slot node s1 s2"
    and "set_loop (pre @ s1 # r1) v t = (Returned True, t')"
  shows "get_loop (pre @ s2 # r2) t' = get_loop (pre @ s2 # r2) t"
proof (cases "is_container node")
  case True
  from set_loop_prefix [OF assms(1) True, of "s1 # r1" v] assms(3)
  have w: "set_loop (s1 # r1) v node = (Returned True, snd (set_loop (s1 # r1) v node))"
    and r: "get_loop pre t' = Inr (snd (set_loop (s1 # r1) v node))"
    by (simp_all add: prod_eq_iff)
  from slot_frame [OF w assms(2)] assms(1) r show ?thesis
    by (simp add: get_loop_append)
next
  case False
  then have "s1 \<noteq> s2" using assms(2) by (cases node) (auto simp: same_slot_def)
  from off_path_of_fresh_chain [OF this assms(1) False assms(3)]
  have "get_loop (pre @ s2 # r2) t' = Inr JNull" .
  moreover have "get_loop (s2 # r2) node = Inr JNull"
    by (rule get_loop_scalar [OF False]) simp
  then have "get_loop (pre @ s2 # r2) t = Inr JNull"
    by (simp only: get_loop_append [OF assms(1)])
  ultimately show ?thesis by simp
qed

section \<open>Facts about the processor\<close>

lemma try_body_not_dict:
  "\<forall>d. action \<noteq> JObj d \<Longrightarrow> try_body action s = (Some AttributeError, s)"
  by (cases action) (simp_all add: try_body_def action_get_def)

lemma try_body_other_type:
  "dict_get kv ''type'' \<noteq> JStr ACTION_TYPE_SET_STATE \<Longrightarrow>
   try_body (JObj kv) s = (None, task_done s)"
  by (simp add: try_body_def action_get_def)

lemma try_body_no_path:
  "dict_get kv ''path'' = JNull \<Longrightarrow> try_body (JObj kv) s = (None, task_done s)"
  by (simp add: try_body_def action_get_def)

lemma try_body_set_state:
  assumes "dict_get kv ''type'' = JStr ACTION_TYPE_SET_STATE" and "dict_get kv ''path'' \<noteq> JNull"
  shows "try_body (JObj kv) s =
     (case set_nested_value (dict_get kv ''path'') (dict_get kv ''value'') (state s) of
        (Raised e, temp_state) \<Rightarrow>
          (case get_nested_value (dict_get kv ''path'') (state s) of
             Inl e' \<Rightarrow> (Some e', s) | Inr old \<Rightarrow> (Some e, s))
      | (Returned False, temp_state) \<Rightarrow> (None, task_done s)
      | (Returned True, temp_state) \<Rightarrow>
          (case get_nested_value (dict_get kv ''path'') (state s) of
             Inl e' \<Rightarrow> (Some e', s)
           | Inr old \<Rightarrow>
              (None, task_done
                (s\<lparr>state := temp_state,
                   event_queue := event_queue s @
                     [\<lparr>etype = EVENT_TYPE_STATE_CHANGED,
                       path = dict_get kv ''path'',
                       old_value = old,
                       new_value = dict_get kv ''value'',
                       action_source = JObj kv\<rparr>]\<rparr>))))"
proof -
  let ?p = "dict_get kv ''path''" and ?v = "dict_get kv ''value''"
  obtain r t where rt: "set_nested_value ?p ?v (state s) = (r, t)"
    by (cases "set_nested_value ?p ?v (state s)")
  show ?thesis
  proof (cases r)
    case (Returned b)
    with rt obtain old where old: "get_nested_value ?p (state s) = Inr old"
      by (blast dest: get_no_raise)
    show ?thesis
    proof (cases b)
      case True
      with rt Returned have "get_nested_value ?p t = Inr ?v" by (simp add: get_after_set)
      with assms rt Returned True old show ?thesis
        by (simp add: try_body_def action_get_def)
    next
      case False
      with assms rt Returned old show ?thesis
        by (simp add: try_body_def action_get_def)
    qed
  next
    case (Raised e)
    with assms rt show ?thesis
      by (simp add: try_body_def action_get_def split: sum.splits)
  qed
qed

lemma try_body_raise_keeps_store: "try_body action s = (Some e, s') \<Longrightarrow> s' = s"
proof (cases action)
  case (JObj kv)
  assume a: "try_body action s = (Some e, s')"
  show ?thesis
  proof (cases "dict_get kv ''type'' = JStr ACTION_TYPE_SET_STATE \<and> dict_get kv ''path'' \<noteq> JNull")
    case True
    with a JObj show ?thesis
      by (auto simp: try_body_set_state split: prod.splits outcome.splits bool.splits sum.splits)
  next
    case False
    with a JObj show ?thesis
      by (auto simp: try_body_other_type try_body_no_path)
  qed
qed (simp_all add: try_body_not_dict)

lemma tasks_done_iteration: "tasks_done (iteration action s) = Suc (tasks_done s)"
proof (cases action)
  case (JObj kv)
  show ?thesis
  proof (cases "dict_get kv ''type'' = JStr ACTION_TYPE_SET_STATE \<and> dict_get kv ''path'' \<noteq> JNull")
    case True
    with JObj show ?thesis
      by (auto simp: iteration_def try_body_set_state task_done_def
            split: prod.splits outcome.splits bool.splits sum.splits)
  next
    case False
    with JObj show ?thesis
      by (auto simp: iteration_def try_body_other_type try_body_no_path task_done_def)
  qed
qed (simp_all add: iteration_def try_body_not_dict task_done_def)

lemma tasks_done_action_processor:
  "tasks_done (action_processor queue s) = tasks_done s + length queue"
  by (induction queue arbitrary: s) (simp_all add: tasks_done_iteration)

lemma iteration_raise: "fst (try_body action s) \<noteq> None \<Longrightarrow> iteration action s = task_done s"
proof -
  assume "fst (try_body action s) \<noteq> None"
  then obtain e s' where b: "try_body action s = (Some e, s')"
    by (cases "try_body action s") auto
  then have "s' = s" by (rule try_body_raise_keeps_store)
  with b show ?thesis by (simp add: iteration_def)
qed

lemma iteration_failed:
  assumes "dict_get kv ''type'' \<noteq> JStr ACTION_TYPE_SET_STATE
         \<or> dict_get kv ''path'' = JNull
         \<or> (\<exists>temp_state. set_nested_value (dict_get kv ''path'') (dict_get kv ''value'') (state s)
               = (Returned False, temp_state))"
  shows "iteration (JObj kv) s = task_done s"
proof (cases "dict_get kv ''type'' = JStr ACTION_TYPE_SET_STATE \<and> dict_get kv ''path'' \<noteq> JNull")
  case True
  with assms obtain temp_state where
    "set_nested_value (dict_get kv ''path'') (dict_get kv ''value'') (state s)
       = (Returned False, temp_state)" by blast
  with True show ?thesis by (simp add: iteration_def try_body_set_state)
next
  case False
  then show ?thesis
    by (auto simp: iteration_def try_body_other_type try_body_no_path)
qed

lemma iteration_applied:
  assumes "dict_get kv ''type'' = JStr ACTION_TYPE_SET_STATE" and "dict_get kv ''path'' \<noteq> JNull"
    and "set_nested_value (dict_get kv ''path'') (dict_get kv ''value'') (state s)
           = (Returned True, doc')"
  shows "\<exists>old. get_nested_value (dict_get kv ''path'') (state s) = Inr old \<and>
           iteration (JObj kv) s =
             \<lparr>state = doc',
              event_queue = event_queue s @
                [\<lparr>etype = EVENT_TYPE_STATE_CHANGED, path = dict_get kv ''path'',
                  old_value = old, new_value = dict_get kv ''value'',
                  action_source = JObj kv\<rparr>],
              tasks_done = Suc (tasks_done s)\<rparr>"
proof -
  from assms(3) obtain old where "get_nested_value (dict_get kv ''path'') (state s) = Inr old"
    by (blast dest: get_no_raise)
  with assms show ?thesis
    by (simp add: iteration_def try_body_set_state task_done_def)
qed

lemma action_processor_append:
  "action_processor (xs @ ys) s = action_processor ys (action_processor xs s)"
  by (induction xs arbitrary: s) simp_all

lemma iteration_valid:
  assumes "valid_set_state a (state s)"
  shows "\<exists>e. event_queue (iteration a s) = event_queue s @ [e]
           \<and> etype e = EVENT_TYPE_STATE_CHANGED \<and> action_source e = a
           \<and> action_get a ''path'' = Inr (path e)
           \<and> action_get a ''value'' = Inr (new_value e)
           \<and> set_nested_value (path e) (new_value e) (state s)
                = (Returned True, state (iteration a s))
           \<and> get_nested_value (path e) (state (iteration a s)) = Inr (new_value e)
           \<and> get_nested_value (path e) (state s) = Inr (old_value e)"
proof -
  from assms obtain kv where a: "a = JObj kv"
    and t: "dict_get kv ''type'' = JStr ACTION_TYPE_SET_STATE"
    and p: "dict_get kv ''path'' \<noteq> JNull"
    and f: "fst (set_nested_value (dict_get kv ''path'') (dict_get kv ''value'') (state s))
              = Returned True"
    by (auto simp: valid_set_state_def split: json.splits)
  from f obtain doc' where
    w: "set_nested_value (dict_get kv ''path'') (dict_get kv ''value'') (state s)
          = (Returned True, doc')"
    by (cases "set_nested_value (dict_get kv ''path'') (dict_get kv ''value'') (state s)") simp
  from iteration_applied [OF t p w] get_after_set [OF w] w a show ?thesis
    by (auto simp: action_get_def)
qed

section \<open>The path engine: claims\<close>

text \<open>
  Claim C5. When \<^verbatim>\<open>_set_nested_value\<close> returns \<^verbatim>\<open>False\<close>, the target it was given is
  exactly as it was before the call, for every target, path and value: nothing the
  loop created on the way survives a failed write.
\<close>

theorem failed_write_leaves_target:
  assumes "set_nested_value p v doc = (Returned False, doc')"
  shows "doc' = doc"
  using assms by (rule set_nested_value_unchanged) simp

theorem failed_write_leaves_target_witness:
  "set_nested_value (JStr ''a.x.y'') (JInt 1) (JObj [(''a'', JArr [JInt 0])])
     = (Returned False, JObj [(''a'', JArr [JInt 0])])"
proof -
  have "\<exists>doc'. set_nested_value (JStr ''a.x.y'') (JInt 1) (JObj [(''a'', JArr [JInt 0])])
          = (Returned False, doc')"
    by (simp add: set_nested_value_def path_parts_def isdigit_def digit_char_def
          decimal_char_def)
  then obtain doc' where
    w: "set_nested_value (JStr ''a.x.y'') (JInt 1) (JObj [(''a'', JArr [JInt 0])])
          = (Returned False, doc')" ..
  from failed_write_leaves_target [OF w] w show ?thesis by simp
qed

text \<open>
  Claim C3. Whenever \<^verbatim>\<open>_set_nested_value\<close> returns \<^verbatim>\<open>True\<close>, reading the same path
  from the target it has just written returns the written value.
\<close>

theorem read_after_successful_write:
  assumes "set_nested_value p v doc = (Returned True, doc')"
  shows "get_nested_value p doc' = Inr v"
  using assms by (rule get_after_set)

theorem read_after_successful_write_witness:
  "set_nested_value (JStr ''rooms.1.name'') (JStr ''Forest'')
      (JObj [(''rooms'', JArr [JInt 7, JNull])])
     = (Returned True, JObj [(''rooms'', JArr [JInt 7, JObj [(''name'', JStr ''Forest'')]])])
   \<and> get_nested_value (JStr ''rooms.1.name'')
        (JObj [(''rooms'', JArr [JInt 7, JObj [(''name'', JStr ''Forest'')]])])
     = Inr (JStr ''Forest'')"
proof -
  have w: "set_nested_value (JStr ''rooms.1.name'') (JStr ''Forest'')
      (JObj [(''rooms'', JArr [JInt 7, JNull])])
     = (Returned True, JObj [(''rooms'', JArr [JInt 7, JObj [(''name'', JStr ''Forest'')]])])"
    by (simp add: eval_path)
  from read_after_successful_write [OF w] w show ?thesis by simp
qed

text \<open>
  Where the read does return \<^verbatim>\<open>None\<close>. Let the read loop have walked the segments
  \<open>pre\<close> of the path and stand at \<open>node\<close>, with \<open>seg\<close> the next segment. The result of the whole read is \<^verbatim>\<open>None\<close>,
  whatever segments follow, when \<open>seg\<close> is a key the object \<open>node\<close> lacks, when \<open>node\<close>
  is an array and \<^verbatim>\<open>seg.isdigit()\<close> is false, when \<open>node\<close> is a scalar (\<^verbatim>\<open>None\<close> included),
  when \<open>seg\<close> is an index past the end of the array \<open>node\<close>, and when the value found
  at \<open>seg\<close> is \<^verbatim>\<open>None\<close>.
\<close>

lemma read_short_circuits_to_null:
  assumes "path_parts p = Inr (pre @ seg # rest)"
    and "get_loop pre doc = Inr node"
    and "(\<exists>d. node = JObj d \<and> map_of d seg = None)
         \<or> (\<exists>xs. node = JArr xs \<and> \<not> isdigit seg)
         \<or> \<not> is_container node
         \<or> (\<exists>xs idx. node = JArr xs \<and> isdigit seg \<and> py_int seg = Inr idx \<and> length xs \<le> idx)
         \<or> (\<exists>d. node = JObj d \<and> map_of d seg = Some JNull)
         \<or> (\<exists>xs idx. node = JArr xs \<and> isdigit seg \<and> py_int seg = Inr idx \<and> idx < length xs
               \<and> xs ! idx = JNull)"
  shows "get_nested_value p doc = Inr JNull"
proof -
  from assms(3) have "get_loop (seg # rest) node = Inr JNull"
    by (intro get_loop_stops) (auto simp: dict_get_def)
  with assms(1,2) show ?thesis
    by (simp add: get_nested_value_def get_loop_append)
qed

lemma read_short_circuits_to_null_instances:
  "get_nested_value (JStr ''a.b.c'') (JObj [(''a'', JObj [])]) = Inr JNull
   \<and> get_nested_value (JStr ''l.x'') (JObj [(''l'', JArr [JInt 1])]) = Inr JNull
   \<and> get_nested_value (JStr ''a.b'') (JObj [(''a'', JInt 5)]) = Inr JNull
   \<and> get_nested_value (JStr ''l.5.k'') (JObj [(''l'', JArr [JInt 0, JInt 1, JInt 2])]) = Inr JNull
   \<and> get_nested_value (JStr ''a.b.c.d'') (JObj [(''a'', JObj [(''b'', JNull)])]) = Inr JNull
   \<and> get_nested_value (JStr ''l.0.c'') (JObj [(''l'', JArr [JNull])]) = Inr JNull"
proof -
  have "get_nested_value (JStr ''a.b.c'') (JObj [(''a'', JObj [])]) = Inr JNull"
    by (rule read_short_circuits_to_null
          [where pre = "[''a'']" and seg = "''b''" and rest = "[''c'']" and node = "JObj []"])
       (simp_all add: eval_path)
  moreover have "get_nested_value (JStr ''l.x'') (JObj [(''l'', JArr [JInt 1])]) = Inr JNull"
    by (rule read_short_circuits_to_null
          [where pre = "[''l'']" and seg = "''x''" and rest = "[]" and node = "JArr [JInt 1]"])
       (simp_all add: eval_path)
  moreover have "get_nested_value (JStr ''a.b'') (JObj [(''a'', JInt 5)]) = Inr JNull"
    by (rule read_short_circuits_to_null
          [where pre = "[''a'']" and seg = "''b''" and rest = "[]" and node = "JInt 5"])
       (simp_all add: eval_path)
  moreover have
    "get_nested_value (JStr ''l.5.k'') (JObj [(''l'', JArr [JInt 0, JInt 1, JInt 2])]) = Inr JNull"
    by (rule read_short_circuits_to_null
          [where pre = "[''l'']" and seg = "''5''" and rest = "[''k'']"
             and node = "JArr [JInt 0, JInt 1, JInt 2]"])
       (simp_all add: eval_path)
  moreover have
    "get_nested_value (JStr ''a.b.c.d'') (JObj [(''a'', JObj [(''b'', JNull)])]) = Inr JNull"
    by (rule read_short_circuits_to_null
          [where pre = "[''a'']" and seg = "''b''" and rest = "[''c'', ''d'']"
             and node = "JObj [(''b'', JNull)]"])
       (simp_all add: eval_path)
  moreover have "get_nested_value (JStr ''l.0.c'') (JObj [(''l'', JArr [JNull])]) = Inr JNull"
    by (rule read_short_circuits_to_null
          [where pre = "[''l'']" and seg = "''0''" and rest = "[''c'']" and node = "JArr [JNull]"])
       (simp_all add: eval_path)
  ultimately show ?thesis by blast
qed

text \<open>
  Claim C6. The read is to return \<^verbatim>\<open>None\<close> when a segment that is no index is applied
  to an array. The code tests \<^verbatim>\<open>part.isdigit()\<close> before \<^verbatim>\<open>int(part)\<close>, and the two
  disagree on the superscript digits: on the segment made of U+00B2 the test passes
  and \<^verbatim>\<open>int\<close> raises \<^verbatim>\<open>ValueError\<close>, so the read of \<^verbatim>\<open>l.\<close> followed by U+00B2 in
  \<^verbatim>\<open>{l: [1, 2, 3]}\<close> raises, where the neighbouring branches (a segment that is not
  made of digits, an index past the end) return \<^verbatim>\<open>None\<close>. In the processor the
  exception ends the turn in the handler for unexpected exceptions.
\<close>

theorem read_raises_on_superscript_digit:
  "isdigit [CHR 0xB2]
   \<and> py_int [CHR 0xB2] = Inl ValueError
   \<and> path_parts (JStr (''l.'' @ [CHR 0xB2])) = Inr [''l'', [CHR 0xB2]]
   \<and> get_nested_value (JStr (''l.'' @ [CHR 0xB2])) (JObj [(''l'', JArr [JInt 1, JInt 2, JInt 3])])
       = Inl ValueError
   \<and> get_nested_value (JStr ''l.x'') (JObj [(''l'', JArr [JInt 1, JInt 2, JInt 3])]) = Inr JNull
   \<and> get_nested_value (JStr ''l.7'') (JObj [(''l'', JArr [JInt 1, JInt 2, JInt 3])]) = Inr JNull
   \<and> try_body
        (JObj [(''type'', JStr ''SET_STATE''), (''path'', JStr (''l.'' @ [CHR 0xB2])),
               (''value'', JInt 0)])
        \<lparr>state = JObj [(''l'', JArr [JInt 1, JInt 2, JInt 3])], event_queue = [],
         tasks_done = 0\<rparr>
       = (Some ValueError,
          \<lparr>state = JObj [(''l'', JArr [JInt 1, JInt 2, JInt 3])], event_queue = [],
           tasks_done = 0\<rparr>)"
  by (simp add: try_body_def action_get_def ACTION_TYPE_SET_STATE_def eval_path)

text \<open>
  Claim C7. Let the path lead, through existing containers, to an array, and let its
  next segment be an index past the end of that array; the segment may be the last of
  the path or not. Then the write returns \<^verbatim>\<open>False\<close> and the target is what it was,
  with no slot added; an action that asks for this write leaves the document and the
  event queue as they were. The instance that follows the theorem is writing 1 at
  \<^verbatim>\<open>list.5\<close> where \<^verbatim>\<open>list\<close> is \<^verbatim>\<open>[0, 1, 2]\<close>.
\<close>

theorem out_of_bounds_write_fails:
  assumes "path_parts p = Inr (pre @ seg # rest)"
    and "get_loop pre doc = Inr (JArr xs)"
    and "isdigit seg" and "py_int seg = Inr idx" and "length xs \<le> idx"
  shows "set_nested_value p v doc = (Returned False, doc)
       \<and> (\<forall>kv s. dict_get kv ''type'' = JStr ACTION_TYPE_SET_STATE \<and> dict_get kv ''path'' = p
              \<and> dict_get kv ''value'' = v \<and> state s = doc
            \<longrightarrow> iteration (JObj kv) s = s\<lparr>tasks_done := Suc (tasks_done s)\<rparr>)"
proof -
  have w: "set_nested_value p v doc = (Returned False, doc)"
    using assms by (simp add: set_nested_value_def set_loop_oob)
  then show ?thesis
    by (auto simp: task_done_def dest!: iteration_failed [OF disjI2, OF disjI2, OF exI])
qed

theorem out_of_bounds_write_fails_witness:
  "set_nested_value (JStr ''list.5'') (JInt 1) (JObj [(''list'', JArr [JInt 0, JInt 1, JInt 2])])
     = (Returned False, JObj [(''list'', JArr [JInt 0, JInt 1, JInt 2])])
   \<and> iteration
        (JObj [(''type'', JStr ''SET_STATE''), (''path'', JStr ''list.5''), (''value'', JInt 1)])
        \<lparr>state = JObj [(''list'', JArr [JInt 0, JInt 1, JInt 2])], event_queue = [],
         tasks_done = 0\<rparr>
     = \<lparr>state = JObj [(''list'', JArr [JInt 0, JInt 1, JInt 2])], event_queue = [],
        tasks_done = 1\<rparr>"
proof -
  let ?doc = "JObj [(''list'', JArr [JInt 0, JInt 1, JInt 2])]"
  let ?kv = "[(''type'', JStr ''SET_STATE''), (''path'', JStr ''list.5''), (''value'', JInt 1)]"
  let ?s = "\<lparr>state = ?doc, event_queue = [], tasks_done = 0\<rparr>"
  have a: "path_parts (JStr ''list.5'') = Inr ([''list''] @ ''5'' # [])"
    by (simp add: path_parts_def)
  have b: "get_loop [''list''] ?doc = Inr (JArr [JInt 0, JInt 1, JInt 2])"
    by (simp add: eval_path)
  have c: "isdigit ''5''" "py_int ''5'' = Inr 5" "length [JInt 0, JInt 1, JInt 2] \<le> 5"
    by (simp_all add: eval_path)
  note t = out_of_bounds_write_fails [OF a b c, of "JInt 1"]
  from t have "iteration (JObj ?kv) ?s = ?s\<lparr>tasks_done := Suc (tasks_done ?s)\<rparr>"
    by (elim conjE allE [of _ ?kv] allE [of _ ?s] impE)
       (simp_all add: dict_get_def ACTION_TYPE_SET_STATE_def)
  with t show ?thesis by simp
qed

text \<open>
  Claim C4, as amended. Take a non-terminal segment \<open>part\<close> of the path, after the
  segments \<open>pre\<close>, whose current value is absent or not a container (reading
  \<open>pre\<close> and \<open>part\<close> gives a non-container, \<^verbatim>\<open>None\<close> included). In every write
  that returns \<^verbatim>\<open>True\<close> the segment afterwards holds a fresh object into which the
  rest of the path has been written, whatever scalar was there. The write does return
  \<^verbatim>\<open>True\<close> when the loop meets the segment in an object or as an in-bounds index
  of an array. And writing 5 at \<^verbatim>\<open>a.b.c\<close> into the empty document returns \<^verbatim>\<open>True\<close> and
  leaves \<^verbatim>\<open>{a: {b: {c: 5}}}\<close>.
\<close>

theorem auto_vivification:
  assumes "path_parts p = Inr (pre @ part # parts)" and "parts \<noteq> []"
    and "get_loop (pre @ [part]) doc = Inr x" and "\<not> is_container x"
  shows "(\<forall>doc'. set_nested_value p v doc = (Returned True, doc') \<longrightarrow>
            get_loop (pre @ [part]) doc' = Inr (snd (set_loop parts v (JObj []))))
       \<and> set_loop parts v (JObj []) = (Returned True, chain parts v)
       \<and> (\<forall>node. get_loop pre doc = Inr node \<and>
             ((\<exists>d. node = JObj d) \<or>
              (\<exists>xs idx. node = JArr xs \<and> isdigit part \<and> py_int part = Inr idx \<and> idx < length xs))
            \<longrightarrow> fst (set_nested_value p v doc) = Returned True)
       \<and> set_nested_value (JStr ''a.b.c'') (JInt 5) (JObj [])
           = (Returned True, JObj [(''a'', JObj [(''b'', JObj [(''c'', JInt 5)])])])"
proof (intro conjI allI impI)
  fix doc' assume "set_nested_value p v doc = (Returned True, doc')"
  with assms(1) have "set_loop (pre @ part # parts) v doc = (Returned True, doc')"
    by (simp add: set_nested_value_def)
  from vivified_segment [OF assms(2) this assms(3,4)]
  show "get_loop (pre @ [part]) doc' = Inr (snd (set_loop parts v (JObj [])))"
    by (simp add: set_loop_empty_dict)
next
  show "set_loop parts v (JObj []) = (Returned True, chain parts v)"
    by (rule set_loop_empty_dict)
next
  fix node
  assume "get_loop pre doc = Inr node \<and>
             ((\<exists>d. node = JObj d) \<or>
              (\<exists>xs idx. node = JArr xs \<and> isdigit part \<and> py_int part = Inr idx \<and> idx < length xs))"
  then have "fst (set_loop (pre @ part # parts) v doc) = Returned True"
    using write_reaches_slot [OF assms(2) _ _ assms(3,4)] by blast
  with assms(1) show "fst (set_nested_value p v doc) = Returned True"
    by (simp add: set_nested_value_def)
next
  show "set_nested_value (JStr ''a.b.c'') (JInt 5) (JObj [])
           = (Returned True, JObj [(''a'', JObj [(''b'', JObj [(''c'', JInt 5)])])])"
    by (simp add: eval_path)
qed

theorem auto_vivification_witness:
  "set_nested_value (JStr ''l.0.k.z'') (JInt 1) (JObj [(''l'', JArr [JStr ''old''])])
     = (Returned True, JObj [(''l'', JArr [JObj [(''k'', JObj [(''z'', JInt 1)])]])])
   \<and> get_loop ([''l''] @ [''0'']) (JObj [(''l'', JArr [JObj [(''k'', JObj [(''z'', JInt 1)])]])])
     = Inr (JObj [(''k'', JObj [(''z'', JInt 1)])])"
proof -
  let ?doc = "JObj [(''l'', JArr [JStr ''old''])]"
  let ?doc' = "JObj [(''l'', JArr [JObj [(''k'', JObj [(''z'', JInt 1)])]])]"
  have a: "path_parts (JStr ''l.0.k.z'') = Inr ([''l''] @ ''0'' # [''k'', ''z''])"
    by (simp add: path_parts_def)
  have b: "[''k'', ''z''] \<noteq> []" by simp
  have c: "get_loop ([''l''] @ [''0'']) ?doc = Inr (JStr ''old'')"
    by (simp add: eval_path)
  have d: "\<not> is_container (JStr ''old'')" by simp
  have w: "set_nested_value (JStr ''l.0.k.z'') (JInt 1) ?doc = (Returned True, ?doc')"
    by (simp add: eval_path)
  from auto_vivification [OF a b c d, of "JInt 1"] w
  have "get_loop ([''l''] @ [''0'']) ?doc' = Inr (snd (set_loop [''k'', ''z''] (JInt 1) (JObj [])))"
    by blast
  with w show ?thesis by simp
qed

text \<open>
  The claim as it was stated, for every non-terminal segment whose value is absent,
  fails at an array: index 0 of the empty array \<^verbatim>\<open>l\<close> holds nothing, and the write at
  \<^verbatim>\<open>l.0.x\<close> creates nothing there but returns \<^verbatim>\<open>False\<close>.
\<close>

theorem auto_vivification_counterexample:
  "path_parts (JStr ''l.0.x'') = Inr ([''l''] @ ''0'' # [''x''])
   \<and> get_loop ([''l''] @ [''0'']) (JObj [(''l'', JArr [])]) = Inr JNull
   \<and> set_nested_value (JStr ''l.0.x'') (JInt 5) (JObj [(''l'', JArr [])])
       = (Returned False, JObj [(''l'', JArr [])])"
  by (simp add: eval_path)

text \<open>
  Claim C10, as amended. Let the document be a tree: no \<^verbatim>\<open>dict\<close> or \<^verbatim>\<open>list\<close> object
  is held at two places of it. Let the paths \<open>p\<close> and \<open>q\<close> share the segments
  \<open>pre\<close> and then go on with segments that do not name the same place of the node that
  \<open>pre\<close> leads to: different keys, or in an array different index values. Then a
  write at \<open>p\<close> that returns \<^verbatim>\<open>True\<close> does not change what \<open>q\<close> reads. With
  \<open>pre\<close> empty this is the case of first segments: different first keys of an object,
  different first indices of an array. (Every value of type \<open>json\<close> is a tree, so the
  restriction is in the type of \<open>doc\<close>.)
\<close>

theorem write_frame:
  assumes "path_parts p = Inr (pre @ s1 # r1)" and "path_parts q = Inr (pre @ s2 # r2)"
    and "get_loop pre doc = Inr node" and "\<not> same_slot node s1 s2"
    and "set_nested_value p v doc = (Returned True, doc')"
  shows "get_nested_value q doc' = get_nested_value q doc"
  using assms set_loop_frame [OF assms(3,4), of r1 v doc' r2]
  by (simp add: set_nested_value_def get_nested_value_def)

theorem write_frame_witness:
  "set_nested_value (JStr ''a.x'') (JInt 1) (JObj [(''a'', JInt 0), (''b'', JObj [(''y'', JInt 2)])])
     = (Returned True, JObj [(''a'', JObj [(''x'', JInt 1)]), (''b'', JObj [(''y'', JInt 2)])])
   \<and> get_nested_value (JStr ''b.y'')
        (JObj [(''a'', JObj [(''x'', JInt 1)]), (''b'', JObj [(''y'', JInt 2)])])
     = get_nested_value (JStr ''b.y'') (JObj [(''a'', JInt 0), (''b'', JObj [(''y'', JInt 2)])])"
proof -
  let ?doc = "JObj [(''a'', JInt 0), (''b'', JObj [(''y'', JInt 2)])]"
  have a: "path_parts (JStr ''a.x'') = Inr ([] @ ''a'' # [''x''])"
    and b: "path_parts (JStr ''b.y'') = Inr ([] @ ''b'' # [''y''])"
    by (simp_all add: path_parts_def)
  have c: "get_loop [] ?doc = Inr ?doc" by simp
  have d: "\<not> same_slot ?doc ''a'' ''b''" by (simp add: same_slot_def)
  have w: "set_nested_value (JStr ''a.x'') (JInt 1) ?doc
     = (Returned True, JObj [(''a'', JObj [(''x'', JInt 1)]), (''b'', JObj [(''y'', JInt 2)])])"
    by (simp add: eval_path)
  from write_frame [OF a b c d w] w show ?thesis by simp
qed

text \<open>
  The claim as it was stated, for first segments that differ as strings, fails when the
  document is an array: \<^verbatim>\<open>0\<close> and \<^verbatim>\<open>00\<close> differ and name the same element.
\<close>

theorem write_frame_counterexample:
  "hd (py_split (CHR ''.'') ''0.x'') \<noteq> hd (py_split (CHR ''.'') ''00.x'')
   \<and> set_nested_value (JStr ''0.x'') (JInt 1) (JArr [JObj []])
       = (Returned True, JArr [JObj [(''x'', JInt 1)]])
   \<and> get_nested_value (JStr ''00.x'') (JArr [JObj []]) = Inr JNull
   \<and> get_nested_value (JStr ''00.x'') (JArr [JObj [(''x'', JInt 1)]]) = Inr (JInt 1)"
  by (simp add: eval_path)

text \<open>
  The restriction to trees is needed. In \<^verbatim>\<open>{r: {a: S, b: S}}\<close> with one empty
  \<^verbatim>\<open>dict\<close> \<open>S\<close> at both places, the write of 1 at \<^verbatim>\<open>r.a.k\<close> puts the key into \<open>S\<close>,
  and \<^verbatim>\<open>r.b.k\<close>, which read \<^verbatim>\<open>None\<close>, reads 1 afterwards. The same document with
  two empty objects keeps \<^verbatim>\<open>r.b.k\<close> at \<^verbatim>\<open>None\<close>.
\<close>

lemma shared_object_breaks_frame:
  "hset_loop (py_split (CHR ''.'') ''r.a.k'') (HInt 1) (HRef 0)
      [HDict [(''r'', HRef 1)], HDict [(''a'', HRef 2), (''b'', HRef 2)], HDict []]
     = (Returned True,
        [HDict [(''r'', HRef 1)], HDict [(''a'', HRef 2), (''b'', HRef 2)],
         HDict [(''k'', HInt 1)]])
   \<and> hget_loop (py_split (CHR ''.'') ''r.b.k'') (HRef 0)
        [HDict [(''r'', HRef 1)], HDict [(''a'', HRef 2), (''b'', HRef 2)], HDict []]
     = Inr HNull
   \<and> hget_loop (py_split (CHR ''.'') ''r.b.k'') (HRef 0)
        [HDict [(''r'', HRef 1)], HDict [(''a'', HRef 2), (''b'', HRef 2)],
         HDict [(''k'', HInt 1)]]
     = Inr (HInt 1)"
  by (simp add: Let_def)

lemma separate_objects_keep_frame:
  "hset_loop (py_split (CHR ''.'') ''r.a.k'') (HInt 1) (HRef 0)
      [HDict [(''r'', HRef 1)], HDict [(''a'', HRef 2), (''b'', HRef 3)], HDict [], HDict []]
     = (Returned True,
        [HDict [(''r'', HRef 1)], HDict [(''a'', HRef 2), (''b'', HRef 3)],
         HDict [(''k'', HInt 1)], HDict []])
   \<and> hget_loop (py_split (CHR ''.'') ''r.b.k'') (HRef 0)
        [HDict [(''r'', HRef 1)], HDict [(''a'', HRef 2), (''b'', HRef 3)],
         HDict [(''k'', HInt 1)], HDict []]
     = Inr HNull"
  by (simp add: Let_def)

section \<open>The processor: claims\<close>

text \<open>
  Claim C1. A dequeued action that does not apply, because its type is not
  \<^verbatim>\<open>SET_STATE\<close>, because it has no path, or because the nested write returned
  \<^verbatim>\<open>False\<close>, puts no event on the queue and leaves the document that
  \<^verbatim>\<open>get_current_state\<close> shows as it was; the copy the write worked on is dropped, the
  action is marked done, and the loop goes on with the next action.
\<close>

theorem failed_action_is_isolated:
  assumes "dict_get kv ''type'' \<noteq> JStr ACTION_TYPE_SET_STATE
         \<or> dict_get kv ''path'' = JNull
         \<or> (\<exists>temp_state. set_nested_value (dict_get kv ''path'') (dict_get kv ''value'') (state s)
               = (Returned False, temp_state))"
  shows "iteration (JObj kv) s = s\<lparr>tasks_done := Suc (tasks_done s)\<rparr>
       \<and> event_queue (iteration (JObj kv) s) = event_queue s
       \<and> get_current_state (iteration (JObj kv) s) = get_current_state s
       \<and> action_processor (JObj kv # queue) s
           = action_processor queue (s\<lparr>tasks_done := Suc (tasks_done s)\<rparr>)"
  using iteration_failed [OF assms] by (simp add: task_done_def get_current_state_def)

theorem failed_action_is_isolated_witness:
  "action_processor
     [JObj [(''type'', JStr ''RESET'')],
      JObj [(''type'', JStr ''SET_STATE''), (''value'', JInt 3)],
      JObj [(''type'', JStr ''SET_STATE''), (''path'', JStr ''a.b''), (''value'', JInt 3)]]
     \<lparr>state = JArr [JInt 0], event_queue = [], tasks_done = 0\<rparr>
   = \<lparr>state = JArr [JInt 0], event_queue = [], tasks_done = 3\<rparr>"
proof -
  let ?a1 = "[(''type'', JStr ''RESET'')]"
  let ?a2 = "[(''type'', JStr ''SET_STATE''), (''value'', JInt 3)]"
  let ?a3 = "[(''type'', JStr ''SET_STATE''), (''path'', JStr ''a.b''), (''value'', JInt 3)]"
  have 1: "dict_get ?a1 ''type'' \<noteq> JStr ACTION_TYPE_SET_STATE
         \<or> dict_get ?a1 ''path'' = JNull
         \<or> (\<exists>temp_state. set_nested_value (dict_get ?a1 ''path'') (dict_get ?a1 ''value'') (state s)
               = (Returned False, temp_state))" for s
    by (simp add: dict_get_def ACTION_TYPE_SET_STATE_def)
  have 2: "dict_get ?a2 ''type'' \<noteq> JStr ACTION_TYPE_SET_STATE
         \<or> dict_get ?a2 ''path'' = JNull
         \<or> (\<exists>temp_state. set_nested_value (dict_get ?a2 ''path'') (dict_get ?a2 ''value'') (state s)
               = (Returned False, temp_state))" for s
    by (simp add: dict_get_def)
  have 3: "dict_get ?a3 ''type'' \<noteq> JStr ACTION_TYPE_SET_STATE
         \<or> dict_get ?a3 ''path'' = JNull
         \<or> (\<exists>temp_state. set_nested_value (dict_get ?a3 ''path'') (dict_get ?a3 ''value'') (state s)
               = (Returned False, temp_state))" if "state s = JArr [JInt 0]" for s
    using that by (simp add: eval_path)
  show ?thesis
    using failed_action_is_isolated [OF 1] failed_action_is_isolated [OF 2]
      failed_action_is_isolated [OF 3]
    by simp
qed

text \<open>
  Claim C8. No single action ends the loop. Whatever value is dequeued, the turn of the
  loop ends with exactly one \<^verbatim>\<open>task_done()\<close>; when the \<^verbatim>\<open>try\<close> block raised, the
  handler leaves document and events as they were before the action; the loop then
  takes the next action, and so every queued action is taken. An action that is not a
  mapping and a \<^verbatim>\<open>SET_STATE\<close> action whose path is not a string are two such faults
  (\<^verbatim>\<open>AttributeError\<close>).
\<close>

theorem processor_survives_any_action:
  "tasks_done (iteration action s) = Suc (tasks_done s)
   \<and> (fst (try_body action s) \<noteq> None \<longrightarrow>
        iteration action s = s\<lparr>tasks_done := Suc (tasks_done s)\<rparr>)
   \<and> action_processor (action # queue) s = action_processor queue (iteration action s)
   \<and> tasks_done (action_processor queue s) = tasks_done s + length queue
   \<and> ((\<forall>d. action \<noteq> JObj d) \<longrightarrow> fst (try_body action s) = Some AttributeError)
   \<and> (\<forall>kv. action = JObj kv \<and> dict_get kv ''type'' = JStr ACTION_TYPE_SET_STATE
          \<and> dict_get kv ''path'' \<noteq> JNull \<and> (\<forall>str. dict_get kv ''path'' \<noteq> JStr str)
        \<longrightarrow> fst (try_body action s) = Some AttributeError)"
proof -
  have "fst (try_body (JObj kv) s) = Some AttributeError"
    if "dict_get kv ''type'' = JStr ACTION_TYPE_SET_STATE" and "dict_get kv ''path'' \<noteq> JNull"
      and "\<forall>str. dict_get kv ''path'' \<noteq> JStr str" for kv
    using that
    by (cases "dict_get kv ''path''")
       (simp_all add: try_body_def action_get_def get_nested_value_def path_parts_def)
  then show ?thesis
    using iteration_raise [of action s]
    by (auto simp: tasks_done_iteration tasks_done_action_processor try_body_not_dict
          task_done_def)
qed

theorem processor_survives_any_action_witness:
  "action_processor
     [JInt 3,
      JObj [(''type'', JStr ''SET_STATE''), (''path'', JInt 5), (''value'', JInt 1)],
      JObj [(''type'', JStr ''SET_STATE''), (''path'', JStr ''a''), (''value'', JInt 1)]]
     \<lparr>state = JObj [], event_queue = [], tasks_done = 0\<rparr>
   = \<lparr>state = JObj [(''a'', JInt 1)],
      event_queue =
        [\<lparr>etype = ''STATE_CHANGED'', path = JStr ''a'', old_value = JNull, new_value = JInt 1,
          action_source =
            JObj [(''type'', JStr ''SET_STATE''), (''path'', JStr ''a''), (''value'', JInt 1)]\<rparr>],
      tasks_done = 3\<rparr>"
proof -
  let ?bad = "[(''type'', JStr ''SET_STATE''), (''path'', JInt 5), (''value'', JInt 1)]"
  let ?good = "[(''type'', JStr ''SET_STATE''), (''path'', JStr ''a''), (''value'', JInt 1)]"
  let ?s0 = "\<lparr>state = JObj [], event_queue = [], tasks_done = 0\<rparr>"
  let ?s1 = "\<lparr>state = JObj [], event_queue = [], tasks_done = 1\<rparr>"
  let ?s2 = "\<lparr>state = JObj [], event_queue = [], tasks_done = 2\<rparr>"
  have 1: "iteration (JInt 3) ?s0 = ?s1"
    using processor_survives_any_action [of "JInt 3" ?s0 "[]"] by simp
  have 2: "iteration (JObj ?bad) ?s1 = ?s2"
    using processor_survives_any_action [of "JObj ?bad" ?s1 "[]"]
    by (simp add: dict_get_def ACTION_TYPE_SET_STATE_def)
  have 3: "iteration (JObj ?good) ?s2 =
      \<lparr>state = JObj [(''a'', JInt 1)],
       event_queue =
         [\<lparr>etype = ''STATE_CHANGED'', path = JStr ''a'', old_value = JNull, new_value = JInt 1,
           action_source = JObj ?good\<rparr>],
       tasks_done = 3\<rparr>"
    by (simp add: iteration_def try_body_def action_get_def task_done_def eval_path
          ACTION_TYPE_SET_STATE_def EVENT_TYPE_STATE_CHANGED_def)
  from 1 2 3 show ?thesis by simp
qed

text \<open>
  Claim C9. A \<^verbatim>\<open>SET_STATE\<close> action with a path and no \<^verbatim>\<open>value\<close> key is a write of
  \<^verbatim>\<open>None\<close> at that path: when that write returns \<^verbatim>\<open>True\<close> the document is replaced
  and one \<^verbatim>\<open>STATE_CHANGED\<close> event is put whose \<^verbatim>\<open>new_value\<close> is \<^verbatim>\<open>None\<close>, which is
  also what the path reads in the new document; otherwise the action is dropped as
  any failed write is. The missing value is no reason of its own to drop the action.
\<close>

theorem set_state_without_value_writes_null:
  assumes "dict_get kv ''type'' = JStr ACTION_TYPE_SET_STATE"
    and "dict_get kv ''path'' = JStr str"
    and "map_of kv ''value'' = None"
  shows "(\<forall>doc'. set_nested_value (JStr str) JNull (state s) = (Returned True, doc') \<longrightarrow>
            (\<exists>old. get_nested_value (JStr str) (state s) = Inr old \<and>
               iteration (JObj kv) s =
                 \<lparr>state = doc',
                  event_queue = event_queue s @
                    [\<lparr>etype = EVENT_TYPE_STATE_CHANGED, path = JStr str,
                      old_value = old, new_value = JNull, action_source = JObj kv\<rparr>],
                  tasks_done = Suc (tasks_done s)\<rparr>
               \<and> get_nested_value (JStr str) doc' = Inr JNull))
       \<and> (fst (set_nested_value (JStr str) JNull (state s)) \<noteq> Returned True \<longrightarrow>
            iteration (JObj kv) s = s\<lparr>tasks_done := Suc (tasks_done s)\<rparr>)"
proof -
  from assms(3) have v: "dict_get kv ''value'' = JNull" by (simp add: dict_get_def)
  have p: "dict_get kv ''path'' \<noteq> JNull" using assms(2) by simp
  have ok: "\<exists>old. get_nested_value (JStr str) (state s) = Inr old \<and>
               iteration (JObj kv) s =
                 \<lparr>state = doc',
                  event_queue = event_queue s @
                    [\<lparr>etype = EVENT_TYPE_STATE_CHANGED, path = JStr str,
                      old_value = old, new_value = JNull, action_source = JObj kv\<rparr>],
                  tasks_done = Suc (tasks_done s)\<rparr>
               \<and> get_nested_value (JStr str) doc' = Inr JNull"
    if w: "set_nested_value (JStr str) JNull (state s) = (Returned True, doc')" for doc'
    using iteration_applied [OF assms(1) p, of s doc'] w v assms(2) get_after_set [OF w]
    by auto
  have ko: "iteration (JObj kv) s = s\<lparr>tasks_done := Suc (tasks_done s)\<rparr>"
    if "fst (set_nested_value (JStr str) JNull (state s)) \<noteq> Returned True"
    using that assms(1,2) p v
    by (cases "set_nested_value (JStr str) JNull (state s)")
       (auto simp: iteration_def try_body_set_state task_done_def
          split: outcome.splits bool.splits sum.splits)
  from ok ko show ?thesis by blast
qed

theorem set_state_without_value_writes_null_witness:
  "iteration (JObj [(''type'', JStr ''SET_STATE''), (''path'', JStr ''a.b'')])
     \<lparr>state = JObj [(''a'', JInt 7)], event_queue = [], tasks_done = 0\<rparr>
   = \<lparr>state = JObj [(''a'', JObj [(''b'', JNull)])],
      event_queue =
        [\<lparr>etype = ''STATE_CHANGED'', path = JStr ''a.b'', old_value = JNull, new_value = JNull,
          action_source = JObj [(''type'', JStr ''SET_STATE''), (''path'', JStr ''a.b'')]\<rparr>],
      tasks_done = 1\<rparr>"
proof -
  let ?kv = "[(''type'', JStr ''SET_STATE''), (''path'', JStr ''a.b'')]"
  let ?s = "\<lparr>state = JObj [(''a'', JInt 7)], event_queue = [], tasks_done = 0\<rparr>"
  have a: "dict_get ?kv ''type'' = JStr ACTION_TYPE_SET_STATE"
    and b: "dict_get ?kv ''path'' = JStr ''a.b''"
    and c: "map_of ?kv ''value'' = None"
    by (simp_all add: dict_get_def ACTION_TYPE_SET_STATE_def)
  have w: "set_nested_value (JStr ''a.b'') JNull (state ?s)
             = (Returned True, JObj [(''a'', JObj [(''b'', JNull)])])"
    by (simp add: eval_path)
  have r: "get_nested_value (JStr ''a.b'') (state ?s) = Inr JNull"
    by (simp add: eval_path)
  from set_state_without_value_writes_null [OF a b c, of ?s] w r show ?thesis
    by (simp add: EVENT_TYPE_STATE_CHANGED_def)
qed

text \<open>
  Claim C2. Let every action of a sequence be a valid \<^verbatim>\<open>SET_STATE\<close> when its turn
  comes. Then the processor marks every action done and puts exactly one event per
  action on the queue, behind what the queue held, in the order of the actions. The
  k-th event is a \<^verbatim>\<open>STATE_CHANGED\<close> event that carries the k-th action, its path and,
  as \<^verbatim>\<open>new_value\<close>, its value. The document after k actions is the document after
  k - 1 actions with that value written at that path. The \<^verbatim>\<open>new_value\<close> is what the
  path reads in the document after k actions, the \<^verbatim>\<open>old_value\<close> what it read in the
  document just before the k-th action. (The statement counts events from 0.)
\<close>

theorem events_follow_actions:
  assumes "\<forall>k<length actions.
             valid_set_state (actions ! k) (state (action_processor (take k actions) s))"
  shows "\<exists>evs. event_queue (action_processor actions s) = event_queue s @ evs
           \<and> length evs = length actions
           \<and> tasks_done (action_processor actions s) = tasks_done s + length actions
           \<and> (\<forall>k<length actions.
                 etype (evs ! k) = EVENT_TYPE_STATE_CHANGED
               \<and> action_source (evs ! k) = actions ! k
               \<and> action_get (actions ! k) ''path'' = Inr (path (evs ! k))
               \<and> action_get (actions ! k) ''value'' = Inr (new_value (evs ! k))
               \<and> set_nested_value (path (evs ! k)) (new_value (evs ! k))
                     (state (action_processor (take k actions) s))
                   = (Returned True, state (action_processor (take (Suc k) actions) s))
               \<and> get_nested_value (path (evs ! k))
                     (state (action_processor (take (Suc k) actions) s))
                   = Inr (new_value (evs ! k))
               \<and> get_nested_value (path (evs ! k))
                     (state (action_processor (take k actions) s))
                   = Inr (old_value (evs ! k)))"
  using assms
proof (induction actions rule: rev_induct)
  case Nil
  then show ?case by simp
next
  case (snoc a as)
  let ?n = "length as"
  let ?sn = "action_processor as s"
  have "\<forall>k<?n. valid_set_state (as ! k) (state (action_processor (take k as) s))"
  proof (intro allI impI)
    fix k assume "k < ?n"
    with snoc.prems [rule_format, of k]
    show "valid_set_state (as ! k) (state (action_processor (take k as) s))"
      by (simp add: nth_append)
  qed
  from snoc.IH [OF this] obtain evs where
    q: "event_queue ?sn = event_queue s @ evs" and l: "length evs = ?n"
    and old: "\<And>k. k < ?n \<Longrightarrow>
                 etype (evs ! k) = EVENT_TYPE_STATE_CHANGED
               \<and> action_source (evs ! k) = as ! k
               \<and> action_get (as ! k) ''path'' = Inr (path (evs ! k))
               \<and> action_get (as ! k) ''value'' = Inr (new_value (evs ! k))
               \<and> set_nested_value (path (evs ! k)) (new_value (evs ! k))
                     (state (action_processor (take k as) s))
                   = (Returned True, state (action_processor (take (Suc k) as) s))
               \<and> get_nested_value (path (evs ! k)) (state (action_processor (take (Suc k) as) s))
                   = Inr (new_value (evs ! k))
               \<and> get_nested_value (path (evs ! k)) (state (action_processor (take k as) s))
                   = Inr (old_value (evs ! k))"
    by blast
  have "valid_set_state a (state ?sn)"
    using snoc.prems [rule_format, of ?n] by simp
  from iteration_valid [OF this] obtain e where
    e: "event_queue (iteration a ?sn) = event_queue ?sn @ [e]"
       "etype e = EVENT_TYPE_STATE_CHANGED" "action_source e = a"
       "action_get a ''path'' = Inr (path e)"
       "action_get a ''value'' = Inr (new_value e)"
       "set_nested_value (path e) (new_value e) (state ?sn)
          = (Returned True, state (iteration a ?sn))"
       "get_nested_value (path e) (state (iteration a ?sn)) = Inr (new_value e)"
       "get_nested_value (path e) (state ?sn) = Inr (old_value e)"
    by blast
  have run: "action_processor (as @ [a]) s = iteration a ?sn"
    by (simp add: action_processor_append)
  have one: "etype ((evs @ [e]) ! k) = EVENT_TYPE_STATE_CHANGED
             \<and> action_source ((evs @ [e]) ! k) = (as @ [a]) ! k
             \<and> action_get ((as @ [a]) ! k) ''path'' = Inr (path ((evs @ [e]) ! k))
             \<and> action_get ((as @ [a]) ! k) ''value'' = Inr (new_value ((evs @ [e]) ! k))
             \<and> set_nested_value (path ((evs @ [e]) ! k)) (new_value ((evs @ [e]) ! k))
                   (state (action_processor (take k (as @ [a])) s))
                 = (Returned True, state (action_processor (take (Suc k) (as @ [a])) s))
             \<and> get_nested_value (path ((evs @ [e]) ! k))
                   (state (action_processor (take (Suc k) (as @ [a])) s))
                 = Inr (new_value ((evs @ [e]) ! k))
             \<and> get_nested_value (path ((evs @ [e]) ! k))
                   (state (action_processor (take k (as @ [a])) s))
                 = Inr (old_value ((evs @ [e]) ! k))"
    if "k < length (as @ [a])" for k
  proof (cases "k < ?n")
    case True
    then have "(evs @ [e]) ! k = evs ! k" "(as @ [a]) ! k = as ! k"
      "take (Suc k) (as @ [a]) = take (Suc k) as" "take k (as @ [a]) = take k as"
      using l by (simp_all add: nth_append)
    with old [OF True] show ?thesis by simp
  next
    case False
    with that have k: "k = ?n" by simp
    then have "(evs @ [e]) ! k = e" "(as @ [a]) ! k = a"
      "take (Suc k) (as @ [a]) = as @ [a]" "take k (as @ [a]) = as"
      using l by (simp_all add: nth_append)
    with e run show ?thesis by simp
  qed
  have "event_queue (action_processor (as @ [a]) s) = event_queue s @ (evs @ [e])"
    using run e(1) q by simp
  moreover have "length (evs @ [e]) = length (as @ [a])" using l by simp
  moreover have "tasks_done (action_processor (as @ [a]) s) = tasks_done s + length (as @ [a])"
    by (rule tasks_done_action_processor)
  ultimately show ?case using one by blast
qed

theorem events_follow_actions_witness:
  "state (action_processor
      [JObj [(''type'', JStr ''SET_STATE''), (''path'', JStr ''user_settings.theme''),
             (''value'', JStr ''light'')],
       JObj [(''type'', JStr ''SET_STATE''), (''path'', JStr ''players.player_alpha.username''),
             (''value'', JStr ''Nehsamud'')]]
      \<lparr>state = JObj [(''user_settings'', JObj [(''theme'', JStr ''dark'')])],
       event_queue = [], tasks_done = 0\<rparr>)
     = JObj [(''user_settings'', JObj [(''theme'', JStr ''light'')]),
             (''players'', JObj [(''player_alpha'', JObj [(''username'', JStr ''Nehsamud'')])])]
   \<and> event_queue (action_processor
      [JObj [(''type'', JStr ''SET_STATE''), (''path'', JStr ''user_settings.theme''),
             (''value'', JStr ''light'')],
       JObj [(''type'', JStr ''SET_STATE''), (''path'', JStr ''players.player_alpha.username''),
             (''value'', JStr ''Nehsamud'')]]
      \<lparr>state = JObj [(''user_settings'', JObj [(''theme'', JStr ''dark'')])],
       event_queue = [], tasks_done = 0\<rparr>)
     = [\<lparr>etype = ''STATE_CHANGED'', path = JStr ''user_settings.theme'',
         old_value = JStr ''dark'', new_value = JStr ''light'',
         action_source =
           JObj [(''type'', JStr ''SET_STATE''), (''path'', JStr ''user_settings.theme''),
                 (''value'', JStr ''light'')]\<rparr>,
        \<lparr>etype = ''STATE_CHANGED'', path = JStr ''players.player_alpha.username'',
         old_value = JNull, new_value = JStr ''Nehsamud'',
         action_source =
           JObj [(''type'', JStr ''SET_STATE''),
                 (''path'', JStr ''players.player_alpha.username''),
                 (''value'', JStr ''Nehsamud'')]\<rparr>]"
proof -
  let ?a1 = "JObj [(''type'', JStr ''SET_STATE''), (''path'', JStr ''user_settings.theme''),
             (''value'', JStr ''light'')]"
  let ?a2 = "JObj [(''type'', JStr ''SET_STATE''), (''path'', JStr ''players.player_alpha.username''),
             (''value'', JStr ''Nehsamud'')]"
  let ?s = "\<lparr>state = JObj [(''user_settings'', JObj [(''theme'', JStr ''dark'')])],
       event_queue = [], tasks_done = 0\<rparr>"
  let ?d1 = "JObj [(''user_settings'', JObj [(''theme'', JStr ''light'')])]"
  let ?d2 = "JObj [(''user_settings'', JObj [(''theme'', JStr ''light'')]),
             (''players'', JObj [(''player_alpha'', JObj [(''username'', JStr ''Nehsamud'')])])]"
  have v1: "valid_set_state ?a1 (state ?s)"
    by (simp add: valid_set_state_def ACTION_TYPE_SET_STATE_def eval_path)
  have s1: "state (action_processor [?a1] ?s) = ?d1"
    by (simp add: iteration_def try_body_def action_get_def task_done_def
          ACTION_TYPE_SET_STATE_def eval_path)
  have v2: "valid_set_state ?a2 (state (action_processor [?a1] ?s))"
    unfolding s1 by (simp add: valid_set_state_def ACTION_TYPE_SET_STATE_def eval_path)
  have h: "\<forall>k<length [?a1, ?a2].
             valid_set_state ([?a1, ?a2] ! k) (state (action_processor (take k [?a1, ?a2]) ?s))"
  proof (intro allI impI)
    fix k assume "k < length [?a1, ?a2]"
    then consider "k = 0" | "k = 1" by fastforce
    then show "valid_set_state ([?a1, ?a2] ! k) (state (action_processor (take k [?a1, ?a2]) ?s))"
    proof cases
      case 1
      with v1 show ?thesis by simp
    next
      case 2
      with v2 show ?thesis by simp
    qed
  qed
  from events_follow_actions [OF h] obtain evs where
    q: "event_queue (action_processor [?a1, ?a2] ?s) = event_queue ?s @ evs"
    and l: "length evs = length [?a1, ?a2]"
    and k: "\<And>k. k < length [?a1, ?a2] \<Longrightarrow>
                 etype (evs ! k) = EVENT_TYPE_STATE_CHANGED
               \<and> action_source (evs ! k) = [?a1, ?a2] ! k
               \<and> action_get ([?a1, ?a2] ! k) ''path'' = Inr (path (evs ! k))
               \<and> action_get ([?a1, ?a2] ! k) ''value'' = Inr (new_value (evs ! k))
               \<and> set_nested_value (path (evs ! k)) (new_value (evs ! k))
                     (state (action_processor (take k [?a1, ?a2]) ?s))
                   = (Returned True, state (action_processor (take (Suc k) [?a1, ?a2]) ?s))
               \<and> get_nested_value (path (evs ! k))
                     (state (action_processor (take k [?a1, ?a2]) ?s))
                   = Inr (old_value (evs ! k))"
    by blast
  from l obtain e0 e1 where evs: "evs = [e0, e1]"
    by (cases evs; cases "tl evs") auto
  from k [of 0] evs have e0: "etype e0 = ''STATE_CHANGED''" "action_source e0 = ?a1"
    "path e0 = JStr ''user_settings.theme''" "new_value e0 = JStr ''light''"
    by (simp_all add: action_get_def dict_get_def EVENT_TYPE_STATE_CHANGED_def)
  from k [of 0] evs e0 have "old_value e0 = JStr ''dark''"
    by (simp add: eval_path)
  with e0 have E0: "e0 = \<lparr>etype = ''STATE_CHANGED'', path = JStr ''user_settings.theme'',
         old_value = JStr ''dark'', new_value = JStr ''light'', action_source = ?a1\<rparr>"
    by (cases e0) simp
  from k [of 1] evs have e1: "etype e1 = ''STATE_CHANGED''" "action_source e1 = ?a2"
    "path e1 = JStr ''players.player_alpha.username''" "new_value e1 = JStr ''Nehsamud''"
    by (simp_all add: action_get_def dict_get_def EVENT_TYPE_STATE_CHANGED_def
          del: action_processor.simps)
  from k [of 1] evs e1 s1
  have "old_value e1 = JNull" and S: "state (action_processor [?a1, ?a2] ?s) = ?d2"
    by (simp_all add: eval_path del: action_processor.simps)
  with e1 have E1: "e1 = \<lparr>etype = ''STATE_CHANGED'', path = JStr ''players.player_alpha.username'',
         old_value = JNull, new_value = JStr ''Nehsamud'', action_source = ?a2\<rparr>"
    by (cases e1) simp
  from q evs E0 E1 S show ?thesis by (simp del: action_processor.simps)
qed

end
